theory Spec2Isabelle
  imports Complex_Main "HOL-Library.AList"
begin

section \<open>Modules: states, slots and step results\<close>

text \<open>
  The model follows \<^verbatim>\<open>progressivis/core/module.py\<close>,
  \<^verbatim>\<open>progressivis/core/dataflow.py\<close> and
  \<^verbatim>\<open>progressivis/core/scheduler_base.py\<close>. Python objects are records,
  dictionaries are association lists in iteration order or maps, an exception is the
  left injection of a sum and carries the object as the raise left it (the source
  mutates in place, so what was written before a raise stays written).
\<close>

type_synonym name = string

datatype error =
  AssertionError | ProgressiveError | KeyError | AttributeError | ValueError | TypeError

text \<open>\<^verbatim>\<open>Module.state_created = 0\<close> ... \<^verbatim>\<open>Module.state_invalid = 6\<close>.\<close>

datatype module_state = Created | Ready | Running | Blocked | Zombie | Terminated | Invalid

fun state_code :: "module_state \<Rightarrow> int" where
  "state_code Created = 0"
| "state_code Ready = 1"
| "state_code Running = 2"
| "state_code Blocked = 3"
| "state_code Zombie = 4"
| "state_code Terminated = 5"
| "state_code Invalid = 6"

text \<open>
  What a consumer reads of the module at the other end of a slot
  (\<^verbatim>\<open>slot.output_module\<close>): its name, its state and \<^verbatim>\<open>last_update()\<close>.
\<close>

record producer =
  p_name :: name
  p_state :: module_state
  p_last_update :: int

text \<open>
  A bound slot. The class \<^verbatim>\<open>Slot\<close> is not part of the sources at hand; the fields
  \<open>has_buffered\<close>, \<open>slot_last_update\<close> and \<open>validate_types\<close> hold what its methods
  of these names return. A slot object is truthy.
\<close>

record slot =
  output_module :: producer
  output_name :: name
  input_name :: name
  has_buffered :: bool
  slot_last_update :: int
  validate_types :: bool

text \<open>
  A module object. \<open>input_slots\<close> and \<open>output_slots\<close> are the dictionaries
  \<^verbatim>\<open>_input_slots\<close> and \<^verbatim>\<open>_output_slots\<close> (\<open>None\<close> for an unbound slot);
  a descriptor is kept as its name and its \<^verbatim>\<open>required\<close> flag; \<open>order\<close> is
  \<open>None\<close> until the scheduler assigns a position; \<open>is_input\<close> and
  \<open>is_visualization\<close> hold what the methods of these names return for the module's class.
\<close>

record module =
  name :: name
  state :: module_state
  input_slots :: "(name \<times> slot option) list"
  input_descriptors :: "(name \<times> bool) list"
  output_slots :: "(name \<times> slot list option) list"
  output_descriptors :: "(name \<times> bool) list"
  order :: "nat option"
  steps_acc :: int
  last_update :: int
  is_input :: bool
  is_visualization :: bool

subsection \<open>\<^verbatim>\<open>Module._return_run_step\<close>\<close>

record step_result =
  next_state :: int
  steps_run :: int
  reads :: int
  updates :: int
  creates :: int

text \<open>
  \<^verbatim>\<open>_return_run_step(self, next_state, steps_run, reads=0, updates=0, creates=0)\<close>:
  the assertion on \<open>next_state\<close>, then \<^verbatim>\<open>self.steps_acc += steps_run\<close>, then the
  normalisation of \<open>updates\<close> or the raise.
\<close>

definition return_run_step ::
  "module \<Rightarrow> int \<Rightarrow> int \<Rightarrow> int \<Rightarrow> int \<Rightarrow> int \<Rightarrow> (error \<times> module) + (step_result \<times> module)" where
  "return_run_step self nxt steps rds upd crt =
     (if \<not> (nxt \<ge> state_code Ready \<and> nxt \<le> state_code Zombie) then Inl (AssertionError, self)
      else
        let self' = self\<lparr>steps_acc := steps_acc self + steps\<rparr> in
        if crt \<noteq> 0 \<and> upd = 0 then
          Inr (\<lparr>next_state = nxt, steps_run = steps, reads = rds, updates = crt, creates = crt\<rparr>, self')
        else if crt > upd then Inl (ProgressiveError, self')
        else
          Inr (\<lparr>next_state = nxt, steps_run = steps, reads = rds, updates = upd, creates = crt\<rparr>, self'))"

subsection \<open>\<^verbatim>\<open>Module.is_ready\<close>\<close>

definition has_any_input :: "module \<Rightarrow> bool" where
  "has_any_input self = list_ex (\<lambda>v. v \<noteq> None) (map snd (input_slots self))"

definition input_slot_values :: "module \<Rightarrow> slot option list" where
  "input_slot_values self = map snd (input_slots self)"

text \<open>
  One turn of the loop over the slots; the triple is
  \<open>(in_count, term_count, ready_count)\<close>.
\<close>

fun scan_slot :: "slot option \<Rightarrow> nat \<times> nat \<times> nat \<Rightarrow> nat \<times> nat \<times> nat" where
  "scan_slot None (in_count, term_count, ready_count) = (in_count, term_count, ready_count)"
| "scan_slot (Some s) (in_count, term_count, ready_count) =
     (if has_buffered s \<or> p_last_update (output_module s) > slot_last_update s
      then (in_count + 1, term_count, ready_count + 1)
      else if p_state (output_module s) = Terminated \<or> p_state (output_module s) = Invalid
      then (in_count + 1, term_count + 1, ready_count)
      else (in_count + 1, term_count, ready_count))"

definition is_ready :: "module \<Rightarrow> bool \<times> module" where
  "is_ready self =
     (if state self = Zombie then (False, self\<lparr>state := Terminated\<rparr>)
      else if state self = Terminated then (False, self)
      else if state self = Invalid then (False, self)
      else if \<not> has_any_input self then (True, self)
      else if state self = Ready then (True, self)
      else if state self = Blocked then
        (case fold scan_slot (input_slot_values self) (0, 0, 0) of
           (in_count, term_count, ready_count) \<Rightarrow>
             if \<not> is_input self \<and> in_count \<noteq> 0 \<and> term_count = in_count
             then (False, self\<lparr>state := Zombie\<rparr>)
             else (in_count = 0 \<or> ready_count \<noteq> 0, self))
      else (False, self))"

text \<open>The bound input slots, and the two tests the scan makes on one of them.\<close>

definition bound_slots :: "module \<Rightarrow> slot list" where
  "bound_slots self = List.map_filter id (input_slot_values self)"

definition slot_ready :: "slot \<Rightarrow> bool" where
  "slot_ready s = (has_buffered s \<or> p_last_update (output_module s) > slot_last_update s)"

definition producer_dead :: "slot \<Rightarrow> bool" where
  "producer_dead s =
     (p_state (output_module s) = Terminated \<or> p_state (output_module s) = Invalid)"


subsection \<open>\<^verbatim>\<open>Every\<close> and \<^verbatim>\<open>Print\<close>\<close>

text \<open>
  Keyword arguments are a dictionary from names to values. \<^verbatim>\<open>Module.__init__\<close>
  needs the tracer, the predictor and the parameter table, which are not part of the
  sources at hand: the constructors below take it as the parameter \<open>module_init\<close>, from the
  keywords it is called with to the module it builds or the error it raises. In the same
  way \<^verbatim>\<open>Module.predict_step_size\<close>, which asks the predictor, is the parameter
  \<open>predict\<close>.
\<close>

datatype pyval = PNone | PBool bool | PReal real | PStr string | PProc string

type_synonym kwds = "(name \<times> pyval) list"

record every_module =
  base :: module
  proc :: pyval
  constant_time :: bool

text \<open>
  \<^verbatim>\<open>Every.__init__(self, proc=_print_len, constant_time=True, **kwds)\<close>, called with
  \<open>proc\<close> and \<open>constant_time\<close> already taken out of the keywords; it adds the input
  descriptor \<^verbatim>\<open>df\<close> before the base constructor runs.
\<close>

definition Every_init ::
  "(kwds \<Rightarrow> error + module) \<Rightarrow> pyval \<Rightarrow> bool \<Rightarrow> kwds \<Rightarrow> error + every_module" where
  "Every_init module_init prc ct kw =
     (case module_init (kw @ [(''input_descriptors'', PStr ''df'')]) of
        Inl e \<Rightarrow> Inl e
      | Inr m \<Rightarrow> Inr \<lparr>base = m, proc = prc, constant_time = ct\<rparr>)"

text \<open>
  \<^verbatim>\<open>Print.__init__(self, **kwds)\<close> calls
  \<^verbatim>\<open>super().__init__(quantum=0.1, constant_time=True, **kwds)\<close>: a keyword
  \<^verbatim>\<open>quantum\<close> or \<^verbatim>\<open>constant_time\<close> among \<open>kwds\<close> is a second value for that
  argument, a \<^verbatim>\<open>TypeError\<close>.
\<close>

definition Print_init :: "(kwds \<Rightarrow> error + module) \<Rightarrow> kwds \<Rightarrow> error + every_module" where
  "Print_init module_init kw =
     (let kw1 = (if map_of kw ''proc'' = None then kw @ [(''proc'', PProc ''_prt'')] else kw) in
      if map_of kw1 ''quantum'' \<noteq> None \<or> map_of kw1 ''constant_time'' \<noteq> None then Inl TypeError
      else
        Every_init module_init (the (map_of kw1 ''proc'')) True
          ((''quantum'', PReal (1 / 10)) # AList.delete ''proc'' kw1))"

definition predict_step_size :: "(real \<Rightarrow> int) \<Rightarrow> every_module \<Rightarrow> real \<Rightarrow> int" where
  "predict_step_size predict self duration =
     (if constant_time self then 1 else predict duration)"

section \<open>The dataflow graph\<close>

text \<open>
  \<^verbatim>\<open>Slot = namedtuple('Slot', ['module', 'name'])\<close> is a pair of names. The three
  dictionaries of a \<^verbatim>\<open>Dataflow\<close> are association lists: \<open>map_of\<close> reads a key,
  \<open>AList.update\<close> is the assignment \<^verbatim>\<open>d[k] = v\<close> (in place for a known key, at the end
  for a new one) and \<open>AList.delete\<close> is \<^verbatim>\<open>del d[k]\<close> once the key is known to be there.
\<close>

type_synonym df_slot = "name \<times> name"

record dataflow =
  df_modules :: "(name \<times> module) list"
  df_inputs :: "(name \<times> (name \<times> df_slot) list) list"
  df_outputs :: "(name \<times> (name \<times> df_slot list) list) list"

definition add_module :: "dataflow \<Rightarrow> module \<Rightarrow> (error \<times> dataflow) + dataflow" where
  "add_module df m =
     (if state m \<noteq> Created then Inl (AssertionError, df)
      else if map_of (df_inputs df) (name m) \<noteq> None then Inl (AssertionError, df)
      else Inr (df\<lparr>df_modules := AList.update (name m) m (df_modules df),
                   df_inputs := AList.update (name m) [] (df_inputs df),
                   df_outputs := AList.update (name m) [] (df_outputs df)\<rparr>))"

definition add_connection ::
  "dataflow \<Rightarrow> module \<Rightarrow> name \<Rightarrow> module \<Rightarrow> name \<Rightarrow> (error \<times> dataflow) + dataflow" where
  "add_connection df output_mod oname input_mod iname =
     (case map_of (df_inputs df) (name input_mod) of
        None \<Rightarrow> Inl (KeyError, df)
      | Some ins \<Rightarrow>
          if map_of ins iname \<noteq> None then Inl (AssertionError, df)
          else
            let df1 = df\<lparr>df_inputs :=
                         AList.update (name input_mod)
                           (AList.update iname (name output_mod, oname) ins) (df_inputs df)\<rparr>;
                oslot = (name input_mod, iname)
            in (case map_of (df_outputs df1) (name output_mod) of
                  None \<Rightarrow>
                    Inr (df1\<lparr>df_outputs :=
                           AList.update (name output_mod) [(oname, [oslot])] (df_outputs df1)\<rparr>)
                | Some outs \<Rightarrow>
                    (case map_of outs oname of
                       None \<Rightarrow>
                         Inr (df1\<lparr>df_outputs :=
                                AList.update (name output_mod)
                                  (AList.update oname [oslot] outs) (df_outputs df1)\<rparr>)
                     | Some fan \<Rightarrow> Inl (AttributeError, df1))))"

text \<open>
  The loop of \<^verbatim>\<open>_remove_module_inputs\<close> over the input bindings of the module \<open>nm\<close>,
  on the dictionary of outputs.
\<close>

fun unwire_inputs ::
  "name \<Rightarrow> df_slot list \<Rightarrow> (name \<times> (name \<times> df_slot list) list) list
     \<Rightarrow> (error \<times> (name \<times> (name \<times> df_slot list) list) list) + (name \<times> (name \<times> df_slot list) list) list"
  where
  "unwire_inputs nm [] outs = Inr outs"
| "unwire_inputs nm (slot # rest) outs =
     (case map_of outs (fst slot) of
        None \<Rightarrow> Inl (KeyError, outs)
      | Some fan \<Rightarrow>
          (case map_of fan (snd slot) of
             None \<Rightarrow> Inl (KeyError, outs)
           | Some slots \<Rightarrow>
               let nslots = filter (\<lambda>s. fst s \<noteq> nm) slots in
               unwire_inputs nm rest
                 (AList.update (fst slot)
                    (if nslots \<noteq> [] then AList.update (snd slot) nslots fan
                     else AList.delete (snd slot) fan) outs)))"

definition remove_module_inputs :: "dataflow \<Rightarrow> name \<Rightarrow> (error \<times> dataflow) + dataflow" where
  "remove_module_inputs df nm =
     (case map_of (df_inputs df) nm of
        None \<Rightarrow> Inl (KeyError, df)
      | Some module_slots \<Rightarrow>
          (case unwire_inputs nm (map snd module_slots) (df_outputs df) of
             Inl (e, outs) \<Rightarrow> Inl (e, df\<lparr>df_outputs := outs\<rparr>)
           | Inr outs \<Rightarrow> Inr (df\<lparr>df_inputs := AList.delete nm (df_inputs df), df_outputs := outs\<rparr>)))"

text \<open>
  The loop of \<^verbatim>\<open>_remove_module_outputs\<close> over the output names of the module \<open>nm\<close>,
  on its own dictionary of fan-out lists, with the assertion \<^verbatim>\<open>nslots != slots\<close>.
\<close>

fun filter_outputs ::
  "name \<Rightarrow> name list \<Rightarrow> (name \<times> df_slot list) list
     \<Rightarrow> (error \<times> (name \<times> df_slot list) list) + (name \<times> df_slot list) list" where
  "filter_outputs nm [] module_slots = Inr module_slots"
| "filter_outputs nm (sname # rest) module_slots =
     (case map_of module_slots sname of
        None \<Rightarrow> Inl (KeyError, module_slots)
      | Some slots \<Rightarrow>
          let nslots = filter (\<lambda>s. fst s \<noteq> nm) slots in
          if \<not> (nslots \<noteq> slots) then Inl (AssertionError, module_slots)
          else
            filter_outputs nm rest
              (if nslots \<noteq> [] then AList.update sname nslots module_slots
               else AList.delete sname module_slots))"

definition remove_module_outputs :: "dataflow \<Rightarrow> name \<Rightarrow> (error \<times> dataflow) + dataflow" where
  "remove_module_outputs df nm =
     (case map_of (df_outputs df) nm of
        None \<Rightarrow> Inl (KeyError, df)
      | Some module_slots \<Rightarrow>
          (case filter_outputs nm (map fst module_slots) module_slots of
             Inl (e, ms) \<Rightarrow> Inl (e, df\<lparr>df_outputs := AList.update nm ms (df_outputs df)\<rparr>)
           | Inr ms \<Rightarrow> Inr (df\<lparr>df_outputs := AList.delete nm (df_outputs df)\<rparr>)))"

text \<open>\<^verbatim>\<open>Module.terminate\<close>: "Set the state to terminated for this module".\<close>

definition terminate :: "module \<Rightarrow> module" where
  "terminate self = self\<lparr>state := Zombie\<rparr>"

text \<open>
  \<^verbatim>\<open>Dataflow.remove_module(module)\<close> for a module object; the result holds the module
  as \<^verbatim>\<open>terminate\<close> left it beside the dataflow.
\<close>

definition remove_module ::
  "dataflow \<Rightarrow> module \<Rightarrow> (error \<times> module \<times> dataflow) + (module \<times> dataflow)" where
  "remove_module df m =
     (let m1 = terminate m in
      if map_of (df_modules df) (name m1) = None then Inl (KeyError, m1, df)
      else
        let df1 = df\<lparr>df_modules := AList.delete (name m1) (df_modules df)\<rparr> in
        (case remove_module_inputs df1 (name m1) of
           Inl (e, df2) \<Rightarrow> Inl (e, m1, df2)
         | Inr df2 \<Rightarrow>
             (case remove_module_outputs df2 (name m1) of
                Inl (e, df3) \<Rightarrow> Inl (e, m1, df3)
              | Inr df3 \<Rightarrow> Inr (m1, df3))))"

text \<open>The same call with the module given by its name (a string).\<close>

definition remove_module_named ::
  "dataflow \<Rightarrow> name \<Rightarrow> (error \<times> dataflow) + (module \<times> dataflow)" where
  "remove_module_named df nm =
     (case map_of (df_modules df) nm of
        None \<Rightarrow> Inl (KeyError, df)
      | Some m \<Rightarrow>
          (case remove_module df m of
             Inl (e, m1, df1) \<Rightarrow> Inl (e, df1)
           | Inr r \<Rightarrow> Inr r))"

section \<open>The scheduler\<close>

text \<open>
  \<^verbatim>\<open>_InteractionOpts\<close>: \<open>starving_mods\<close> holds the listed module objects as they are
  when the options are read.
\<close>

record interaction_opts =
  starving_mods :: "module list option"
  max_time :: "real option"
  max_iter :: "int option"

text \<open>
  The fields of \<^verbatim>\<open>BaseScheduler\<close> the functions below read or write. \<open>modules\<close> is
  the dictionary \<^verbatim>\<open>_modules\<close> and holds the module objects; \<open>run_list\<close> refers to
  them by name (names are unique in a scheduler), so that a change of a module's state or
  order is seen through the run list as it is in the source. Times are real numbers.
  \<open>timer_start\<close> is \<^verbatim>\<open>_start\<close>.
\<close>

record scheduler =
  modules :: "(name \<times> module) list"
  run_list :: "name list"
  runorder :: "name list option"
  run_number :: int
  new_modules_ids :: "name list"
  slots_updated :: bool
  valid :: bool
  module_selection :: "name set option"
  selection_target_time :: real
  interaction_latency :: real
  reachability :: "(name \<times> name set) list"
  start_inter :: real
  inter_cycles_cnt :: int
  interaction_opts :: "interaction_opts option"
  timer_start :: "real option"

subsection \<open>Interaction mode\<close>

definition has_input :: "scheduler \<Rightarrow> bool \<times> scheduler" where
  "has_input s =
     (case module_selection s of
        None \<Rightarrow> (False, s)
      | Some sel \<Rightarrow>
          if sel = {} then (False, s\<lparr>module_selection := None, selection_target_time := - 1\<rparr>)
          else (True, s))"

text \<open>
  \<^verbatim>\<open>timer()\<close>; \<open>clock\<close> is what \<^verbatim>\<open>default_timer()\<close> returns at the call.
\<close>

definition timer :: "scheduler \<Rightarrow> real \<Rightarrow> real \<times> scheduler" where
  "timer s clock =
     (case timer_start s of
        None \<Rightarrow> (0, s\<lparr>timer_start := Some clock\<rparr>)
      | Some t0 \<Rightarrow> (clock - t0, s))"

definition time_left :: "scheduler \<Rightarrow> real \<Rightarrow> real \<times> scheduler" where
  "time_left s clock =
     (if selection_target_time s \<le> 0 \<and> \<not> fst (has_input s) then (0, snd (has_input s))
      else
        let s1 = (if selection_target_time s \<le> 0 then snd (has_input s) else s) in
        (max 0 (selection_target_time s1 - fst (timer s1 clock)), snd (timer s1 clock)))"

text \<open>
  \<^verbatim>\<open>fix_quantum(module, quantum)\<close>. The division is Python's true division of a
  float by the size of a set that \<^verbatim>\<open>has_input\<close> has just found not empty.
\<close>

definition fix_quantum :: "scheduler \<Rightarrow> module \<Rightarrow> real \<Rightarrow> real \<Rightarrow> real \<times> scheduler" where
  "fix_quantum s m quantum clock =
     (let s1 = snd (has_input s);
          (q, s2) =
            (if fst (has_input s) \<and> name m \<in> the (module_selection s1)
             then (fst (time_left s1 clock) / real (card (the (module_selection s1))),
                   snd (time_left s1 clock))
             else (quantum, s1))
      in (if q = 0 then 1 / 10 else q, s2))"

text \<open>
  The two assignments every exit of \<^verbatim>\<open>_proc_interaction_opts\<close> makes, and the tests
  of its first two exits.
\<close>

definition leave_interaction :: "scheduler \<Rightarrow> scheduler" where
  "leave_interaction s = s\<lparr>module_selection := None, inter_cycles_cnt := 0\<rparr>"

definition starving_fired :: "interaction_opts \<Rightarrow> bool" where
  "starving_fired opts =
     (case starving_mods opts of
        None \<Rightarrow> False
      | Some mods \<Rightarrow> mods \<noteq> [] \<and> sum_list (map steps_acc mods) = 0)"

definition max_time_fired :: "interaction_opts \<Rightarrow> scheduler \<Rightarrow> real \<Rightarrow> bool" where
  "max_time_fired opts s clock =
     (case max_time opts of
        None \<Rightarrow> False
      | Some t \<Rightarrow> t \<noteq> 0 \<and> clock - start_inter s \<ge> t)"

text \<open>
  \<^verbatim>\<open>_proc_interaction_opts()\<close>; \<open>clock\<close> is what \<^verbatim>\<open>default_timer()\<close> returns
  when \<^verbatim>\<open>max_time\<close> is tested.
\<close>

definition proc_interaction_opts :: "scheduler \<Rightarrow> real \<Rightarrow> scheduler" where
  "proc_interaction_opts s clock =
     (let s1 = snd (has_input s) in
      if \<not> fst (has_input s) then s1
      else
        (case interaction_opts s1 of
           None \<Rightarrow> leave_interaction s1
         | Some opts \<Rightarrow>
             if starving_fired opts then leave_interaction s1
             else if max_time_fired opts s1 clock then leave_interaction s1
             else
               (case max_iter opts of
                  None \<Rightarrow> s1
                | Some n \<Rightarrow>
                    if n = 0 then s1
                    else if inter_cycles_cnt s1 \<ge> n then leave_interaction s1
                    else s1\<lparr>inter_cycles_cnt := inter_cycles_cnt s1 + 1\<rparr>)))"

subsection \<open>Reachability\<close>

text \<open>
  A dependency map \<^verbatim>\<open>name \<rightarrow> set(producer names)\<close>, in the iteration order of the
  dictionary; a set of names is the list of its elements.
\<close>

type_synonym dependencies = "(name \<times> name list) list"

text \<open>\<^verbatim>\<open>index = dict(zip(k, range(size)))\<close>.\<close>

definition index_of :: "name list \<Rightarrow> name \<Rightarrow> nat option" where
  "index_of k v = map_of (zip k [0..<length k]) v"

text \<open>
  The entries \<open>(row, col)\<close> of the sparse matrix, all of value 1: for a module
  \<open>vertex1\<close> and each of its producers \<open>vertex2\<close>, the column is
  \<^verbatim>\<open>index[vertex1]\<close> and the row \<^verbatim>\<open>index[vertex2]\<close>; a producer that is not a key
  of the map is a \<^verbatim>\<open>KeyError\<close>.
\<close>

fun vertex_entries :: "(name \<Rightarrow> nat option) \<Rightarrow> name \<Rightarrow> name list \<Rightarrow> error + (nat \<times> nat) list" where
  "vertex_entries index vertex1 [] = Inr []"
| "vertex_entries index vertex1 (vertex2 # vertices) =
     (case index vertex1 of
        None \<Rightarrow> Inl KeyError
      | Some c \<Rightarrow>
          (case index vertex2 of
             None \<Rightarrow> Inl KeyError
           | Some r \<Rightarrow>
               (case vertex_entries index vertex1 vertices of
                  Inl e \<Rightarrow> Inl e
                | Inr es \<Rightarrow> Inr ((r, c) # es))))"

fun matrix_entries :: "(name \<Rightarrow> nat option) \<Rightarrow> dependencies \<Rightarrow> error + (nat \<times> nat) list" where
  "matrix_entries index [] = Inr []"
| "matrix_entries index ((vertex1, vertices) # rest) =
     (case vertex_entries index vertex1 vertices of
        Inl e \<Rightarrow> Inl e
      | Inr es \<Rightarrow>
          (case matrix_entries index rest of
             Inl e \<Rightarrow> Inl e
           | Inr es' \<Rightarrow> Inr (es @ es')))"

text \<open>
  \<^verbatim>\<open>scipy.sparse.csgraph.shortest_path(mat, directed=True, unweighted=True)\<close> is a
  library function; it is modelled by what it computes, the number of edges on a shortest
  directed path from \<open>i\<close> to \<open>j\<close> along the non-zero entries \<open>mat[i, j]\<close>, with
  \<^verbatim>\<open>inf\<close> (here \<open>None\<close>) where there is no path. The search goes by levels:
  \<open>frontier\<close> holds the vertices at distance \<open>d\<close>, \<open>seen\<close> every vertex found so far
  with its distance.
\<close>

definition next_level :: "(nat \<times> nat) list \<Rightarrow> nat list \<Rightarrow> (nat \<times> nat) list \<Rightarrow> nat list" where
  "next_level es frontier seen =
     remdups (map snd (filter (\<lambda>(r, c). r \<in> set frontier \<and> map_of seen c = None) es))"

lemma next_level_fresh:
  "set (next_level es frontier seen) \<subseteq> snd ` set es - fst ` set seen"
  by (auto simp: next_level_def map_of_eq_None_iff intro: rev_image_eqI)

function bfs :: "(nat \<times> nat) list \<Rightarrow> nat \<Rightarrow> nat list \<Rightarrow> (nat \<times> nat) list \<Rightarrow> (nat \<times> nat) list" where
  "bfs es d frontier seen =
     (if next_level es frontier seen = [] then seen
      else bfs es (Suc d) (next_level es frontier seen)
             (seen @ map (\<lambda>c. (c, Suc d)) (next_level es frontier seen)))"
  by pat_completeness auto
termination
proof (relation "measure (\<lambda>(es, d, frontier, seen). card (snd ` set es - fst ` set seen))")
  show "wf (measure (\<lambda>(es, d, frontier, seen). card (snd ` set es - fst ` set seen)))"
    by simp
next
  fix es :: "(nat \<times> nat) list" and d :: nat and frontier :: "nat list" and seen :: "(nat \<times> nat) list"
  let ?n = "next_level es frontier seen"
  assume ne: "?n \<noteq> []"
  then obtain x where x: "x \<in> set ?n"
    by (cases ?n) auto
  have fresh: "set ?n \<subseteq> snd ` set es - fst ` set seen"
    by (rule next_level_fresh)
  have inside: "x \<in> snd ` set es - fst ` set seen"
    using x fresh by blast
  have outside: "x \<notin> snd ` set es - fst ` set (seen @ map (\<lambda>c. (c, Suc d)) ?n)"
    using x by (simp add: image_Un image_image)
  have "snd ` set es - fst ` set (seen @ map (\<lambda>c. (c, Suc d)) ?n)
          \<subseteq> snd ` set es - fst ` set seen"
    by (auto simp: image_Un)
  with inside outside
  have "snd ` set es - fst ` set (seen @ map (\<lambda>c. (c, Suc d)) ?n)
          \<subset> snd ` set es - fst ` set seen"
    by blast
  then have "card (snd ` set es - fst ` set (seen @ map (\<lambda>c. (c, Suc d)) ?n))
          < card (snd ` set es - fst ` set seen)"
    by (intro psubset_card_mono) auto
  then show "((es, Suc d, ?n, seen @ map (\<lambda>c. (c, Suc d)) ?n), (es, d, frontier, seen))
          \<in> measure (\<lambda>(es, d, frontier, seen). card (snd ` set es - fst ` set seen))"
    by simp
qed

declare bfs.simps [simp del]

definition shortest_path :: "(nat \<times> nat) list \<Rightarrow> nat \<Rightarrow> nat \<Rightarrow> nat option" where
  "shortest_path mat i j = map_of (bfs mat 0 [i] [(i, 0)]) j"

text \<open>
  \<^verbatim>\<open>get_visualizations()\<close>, and the loop of \<^verbatim>\<open>_compute_reachability\<close> over
  \<open>index1\<close>: \<open>reach\<close> is \<^verbatim>\<open>self._reachability\<close> as filled so far and \<open>rnv\<close> is
  \<^verbatim>\<open>reach_no_vis\<close>. \<^verbatim>\<open>self.module[vertex1]\<close> is a \<^verbatim>\<open>KeyError\<close> for a name
  that is not a module of the scheduler.
\<close>

definition get_visualizations :: "scheduler \<Rightarrow> name list" where
  "get_visualizations s = map name (filter is_visualization (map snd (modules s)))"

definition reach_row :: "name list \<Rightarrow> (nat \<Rightarrow> nat \<Rightarrow> nat option) \<Rightarrow> nat \<Rightarrow> name set" where
  "reach_row k dists index1 =
     insert (k ! index1)
       (set (map (\<lambda>index2. k ! index2)
          (filter (\<lambda>index2. dists index1 index2 \<noteq> Some 0 \<and> dists index1 index2 \<noteq> None)
             [0..<length k])))"

fun reach_loop ::
  "(name \<times> module) list \<Rightarrow> name set \<Rightarrow> name list \<Rightarrow> (nat \<Rightarrow> nat \<Rightarrow> nat option) \<Rightarrow> nat list
     \<Rightarrow> (name \<times> name set) list \<Rightarrow> name set
     \<Rightarrow> (error \<times> (name \<times> name set) list) + ((name \<times> name set) list \<times> name set)" where
  "reach_loop mods all_vis k dists [] reach rnv = Inr (reach, rnv)"
| "reach_loop mods all_vis k dists (index1 # rest) reach rnv =
     (let vertex1 = k ! index1;
          s = reach_row k dists index1;
          reach1 = AList.update vertex1 s reach
      in if all_vis \<inter> s = {} then
           (case map_of mods vertex1 of
              None \<Rightarrow> Inl (KeyError, reach1)
            | Some m \<Rightarrow>
                reach_loop mods all_vis k dists rest reach1
                  (if \<not> is_visualization m then insert vertex1 (rnv \<union> s) else rnv \<union> s))
         else reach_loop mods all_vis k dists rest reach1 rnv)"

text \<open>
  \<^verbatim>\<open>_compute_reachability(dependencies)\<close>. A \<^verbatim>\<open>KeyError\<close> while the matrix is
  built leaves \<^verbatim>\<open>_reachability\<close> as it was; one inside the loop leaves it as filled
  so far.
\<close>

definition compute_reachability :: "scheduler \<Rightarrow> dependencies \<Rightarrow> (error \<times> scheduler) + scheduler" where
  "compute_reachability s deps =
     (let k = map fst deps in
      case matrix_entries (index_of k) deps of
        Inl e \<Rightarrow> Inl (e, s)
      | Inr mat \<Rightarrow>
          (case reach_loop (modules s) (set (get_visualizations s)) k (shortest_path mat)
                  [0..<length k] [] {} of
             Inl (e, reach) \<Rightarrow> Inl (e, s\<lparr>reachability := reach\<rparr>)
           | Inr (reach, rnv) \<Rightarrow>
               Inr (s\<lparr>reachability := map (\<lambda>(k, v). (k, v - rnv)) reach\<rparr>)))"

text \<open>
  The spec's words for the map: the descendants of \<open>u\<close> are \<open>u\<close> and every module
  that a path of producer-to-consumer edges of the dependency map reaches from \<open>u\<close>;
  the modules that are dead to the visualizations are those in the set of descendants of
  some module whose descendants hold no visualization.
\<close>

definition dep_edges :: "dependencies \<Rightarrow> (name \<times> name) set" where
  "dep_edges deps = {(p, c). \<exists>ps. (c, ps) \<in> set deps \<and> p \<in> set ps}"

definition descendants :: "dependencies \<Rightarrow> name \<Rightarrow> name set" where
  "descendants deps u = (dep_edges deps)\<^sup>* `` {u}"

definition dead_to_vis :: "scheduler \<Rightarrow> dependencies \<Rightarrow> name set" where
  "dead_to_vis s deps =
     \<Union> {descendants deps v | v.
          v \<in> fst ` set deps \<and> set (get_visualizations s) \<inter> descendants deps v = {}}"

subsection \<open>Ordering the modules\<close>

text \<open>
  \<^verbatim>\<open>_collect_dependencies(only_required)\<close>: the loop over the bound input slots of one
  module, then the loop over the modules. \<^verbatim>\<open>input_slot_required\<close> reads the
  descriptor of the slot's input name (a \<^verbatim>\<open>KeyError\<close> when there is none) and is only
  called when \<open>only_required\<close> is set. An invalid module gets no entry.
\<close>

fun required_outs :: "module \<Rightarrow> bool \<Rightarrow> slot option list \<Rightarrow> error + name list" where
  "required_outs m only_required [] = Inr []"
| "required_outs m only_required (None # rest) = required_outs m only_required rest"
| "required_outs m only_required (Some sl # rest) =
     (if \<not> only_required then
        (case required_outs m only_required rest of
           Inl e \<Rightarrow> Inl e
         | Inr outs \<Rightarrow> Inr (p_name (output_module sl) # outs))
      else
        (case map_of (input_descriptors m) (input_name sl) of
           None \<Rightarrow> Inl KeyError
         | Some req \<Rightarrow>
             (case required_outs m only_required rest of
                Inl e \<Rightarrow> Inl e
              | Inr outs \<Rightarrow> Inr (if req then p_name (output_module sl) # outs else outs))))"

definition is_valid :: "module \<Rightarrow> bool" where
  "is_valid self = (state self \<noteq> Invalid)"

fun collect_loop :: "bool \<Rightarrow> (name \<times> module) list \<Rightarrow> dependencies \<Rightarrow> error + dependencies" where
  "collect_loop only_required [] dependencies = Inr dependencies"
| "collect_loop only_required ((mid, m) # rest) dependencies =
     (if \<not> is_valid m then collect_loop only_required rest dependencies
      else
        (case required_outs m only_required (input_slot_values m) of
           Inl e \<Rightarrow> Inl e
         | Inr outs \<Rightarrow>
             collect_loop only_required rest (AList.update mid (remdups outs) dependencies)))"

definition collect_dependencies :: "scheduler \<Rightarrow> bool \<Rightarrow> error + dependencies" where
  "collect_dependencies s only_required = collect_loop only_required (modules s) []"

text \<open>
  \<^verbatim>\<open>BaseScheduler.order_modules()\<close>. The function \<^verbatim>\<open>toposort\<close> is imported from a
  file that is not part of the sources at hand and is the parameter \<open>toposort\<close>: from a
  dependency map to a run order, or to the error it raises. The body of the
  \<^verbatim>\<open>try\<close> is \<open>order_attempt\<close> with all the inputs; a \<^verbatim>\<open>ValueError\<close> from it
  runs the handler, \<open>order_attempt\<close> with the required inputs only, whose errors are not
  caught. The result holds the run order beside the scheduler, whose
  \<^verbatim>\<open>_reachability\<close> has been written.
\<close>

definition order_attempt ::
  "(dependencies \<Rightarrow> error + name list) \<Rightarrow> scheduler \<Rightarrow> bool
     \<Rightarrow> (error \<times> scheduler) + (name list \<times> scheduler)" where
  "order_attempt toposort s only_required =
     (case collect_dependencies s only_required of
        Inl e \<Rightarrow> Inl (e, s)
      | Inr dependencies \<Rightarrow>
          (case toposort dependencies of
             Inl e \<Rightarrow> Inl (e, s)
           | Inr ro \<Rightarrow>
               (case compute_reachability s dependencies of
                  Inl (e, s1) \<Rightarrow> Inl (e, s1)
                | Inr s1 \<Rightarrow> Inr (ro, s1))))"

definition order_modules ::
  "(dependencies \<Rightarrow> error + name list) \<Rightarrow> scheduler
     \<Rightarrow> (error \<times> scheduler) + (name list \<times> scheduler)" where
  "order_modules toposort s =
     (case order_attempt toposort s False of
        Inl (e, s1) \<Rightarrow> (if e = ValueError then order_attempt toposort s1 True else Inl (e, s1))
      | Inr r \<Rightarrow> Inr r)"

text \<open>
  \<^verbatim>\<open>Module.validate_inputs\<close>, \<^verbatim>\<open>validate_outputs\<close> and \<^verbatim>\<open>validate\<close>: reading
  the slot of a descriptor that the slot dictionary does not have is a \<^verbatim>\<open>KeyError\<close>.
\<close>

definition validate_inputs :: "module \<Rightarrow> error + bool" where
  "validate_inputs self =
     (if list_ex (\<lambda>(n, req). map_of (input_slots self) n = None) (input_descriptors self)
      then Inl KeyError
      else Inr (\<not> list_ex (\<lambda>(n, req). req \<and> map_of (input_slots self) n = Some None)
                    (input_descriptors self)))"

definition output_ok :: "module \<Rightarrow> name \<times> bool \<Rightarrow> bool" where
  "output_ok self sd =
     (case map_of (output_slots self) (fst sd) of
        None \<Rightarrow> True
      | Some None \<Rightarrow> \<not> snd sd
      | Some (Some slots) \<Rightarrow> \<not> (snd sd \<and> slots = []) \<and> list_all validate_types slots)"

definition validate_outputs :: "module \<Rightarrow> error + bool" where
  "validate_outputs self =
     (if list_ex (\<lambda>(n, req). map_of (output_slots self) n = None) (output_descriptors self)
      then Inl KeyError
      else Inr (list_all (output_ok self) (output_descriptors self)))"

definition module_validate :: "module \<Rightarrow> (error \<times> module) + (bool \<times> module)" where
  "module_validate self =
     (case validate_inputs self of
        Inl e \<Rightarrow> Inl (e, self)
      | Inr vi \<Rightarrow>
          if \<not> vi then Inr (False, self\<lparr>state := Invalid\<rparr>)
          else
            (case validate_outputs self of
               Inl e \<Rightarrow> Inl (e, self)
             | Inr vo \<Rightarrow>
                 if vo then Inr (True, self\<lparr>state := Blocked\<rparr>)
                 else Inr (False, self\<lparr>state := Invalid\<rparr>)))"

text \<open>
  \<^verbatim>\<open>BaseScheduler.validate()\<close>: the loop over the modules, each one validated in
  place, and the flag \<^verbatim>\<open>_valid\<close>.
\<close>

fun validate_all ::
  "(name \<times> module) list \<Rightarrow> (error \<times> (name \<times> module) list) + (bool \<times> (name \<times> module) list)" where
  "validate_all [] = Inr (True, [])"
| "validate_all ((n, m) # rest) =
     (case module_validate m of
        Inl (e, m') \<Rightarrow> Inl (e, (n, m') # rest)
      | Inr (ok, m') \<Rightarrow>
          (case validate_all rest of
             Inl (e, rest') \<Rightarrow> Inl (e, (n, m') # rest')
           | Inr (v, rest') \<Rightarrow> Inr (ok \<and> v, (n, m') # rest')))"

definition validate :: "scheduler \<Rightarrow> (error \<times> scheduler) + (bool \<times> scheduler)" where
  "validate s =
     (if valid s then Inr (True, s)
      else
        (case validate_all (modules s) of
           Inl (e, ms) \<Rightarrow> Inl (e, s\<lparr>modules := ms\<rparr>)
         | Inr (v, ms) \<Rightarrow> Inr (v, s\<lparr>modules := ms, valid := v\<rparr>)))"

text \<open>
  The loop of \<^verbatim>\<open>_update_modules\<close> over \<^verbatim>\<open>enumerate(self._runorder)\<close>: the module
  is appended to the run list and gets its position.
\<close>

fun assign_order :: "nat \<Rightarrow> name list \<Rightarrow> scheduler \<Rightarrow> (error \<times> scheduler) + scheduler" where
  "assign_order i [] s = Inr s"
| "assign_order i (mid # rest) s =
     (case map_of (modules s) mid of
        None \<Rightarrow> Inl (KeyError, s)
      | Some m \<Rightarrow>
          assign_order (Suc i) rest
            (s\<lparr>run_list := run_list s @ [mid],
               modules := AList.update mid (m\<lparr>order := Some i\<rparr>) (modules s)\<rparr>))"

text \<open>
  \<^verbatim>\<open>_update_modules()\<close>. \<^verbatim>\<open>starting()\<close> does nothing in the base class, but the
  module is looked up to call it. The run list is emptied before
  \<^verbatim>\<open>order_modules()\<close> is called; the copy \<open>prev_run_list\<close> is put back only when
  \<^verbatim>\<open>validate()\<close> returns False.
\<close>

definition update_modules ::
  "(dependencies \<Rightarrow> error + name list) \<Rightarrow> scheduler \<Rightarrow> (error \<times> scheduler) + scheduler" where
  "update_modules toposort s =
     (if new_modules_ids s = [] then Inr s
      else
        let prev_run_list = run_list s in
        if list_ex (\<lambda>mid. map_of (modules s) mid = None) (new_modules_ids s) then Inl (KeyError, s)
        else
          (case order_modules toposort
                  (s\<lparr>new_modules_ids := [], slots_updated := False, run_list := []\<rparr>) of
             Inl (e, s1) \<Rightarrow> Inl (e, s1)
           | Inr (ro, s1) \<Rightarrow>
               (case assign_order 0 ro (s1\<lparr>runorder := Some ro\<rparr>) of
                  Inl (e, s2) \<Rightarrow> Inl (e, s2)
                | Inr s2 \<Rightarrow>
                    (case validate s2 of
                       Inl (e, s3) \<Rightarrow> Inl (e, s3)
                     | Inr (ok, s3) \<Rightarrow>
                         if \<not> ok then Inr (s3\<lparr>run_list := prev_run_list\<rparr>) else Inr s3))))"

subsection \<open>Ordering the modules of a dataflow\<close>

text \<open>
  \<^verbatim>\<open>Dataflow.collect_dependencies()\<close> and \<^verbatim>\<open>Dataflow.order_modules()\<close>: one
  call of \<^verbatim>\<open>toposort\<close>, whose error is not caught.
\<close>

definition df_collect_dependencies :: "dataflow \<Rightarrow> dependencies" where
  "df_collect_dependencies df =
     fold (\<lambda>(m, slots). AList.update m (remdups (map (\<lambda>(iname, sl). fst sl) slots)))
       (df_inputs df) []"

definition df_order_modules ::
  "(dependencies \<Rightarrow> error + name list) \<Rightarrow> dataflow \<Rightarrow> error + name list" where
  "df_order_modules toposort df = toposort (df_collect_dependencies df)"

subsection \<open>A topological sort\<close>

text \<open>
  Modelled from the spec: \<^verbatim>\<open>toposort\<close> (\<^verbatim>\<open>progressivis/core/toposort.py\<close> is not
  part of the sources at hand). The spec says that it sorts the dependency map
  topologically, so that a module comes after its producers, and fails when the map has
  a cycle; the failure is the \<^verbatim>\<open>ValueError\<close> that \<^verbatim>\<open>order_modules\<close> catches.
  The sort below goes by rounds: the entries whose producers are all sorted come next,
  and a round that finds none while entries are left has met a cycle. It only serves as
  the argument \<open>toposort\<close> at the concrete inputs below.
\<close>

definition ready_names :: "dependencies \<Rightarrow> name list \<Rightarrow> name list" where
  "ready_names data sorted_names =
     map fst (filter (\<lambda>(v, ps). list_all (\<lambda>p. p \<in> set sorted_names) ps) data)"

lemma ready_names_subset: "set (ready_names data sorted_names) \<subseteq> fst ` set data"
  by (auto simp: ready_names_def)

function toposort_rounds :: "dependencies \<Rightarrow> name list \<Rightarrow> error + name list" where
  "toposort_rounds data sorted_names =
     (if data = [] then Inr sorted_names
      else if ready_names data sorted_names = [] then Inl ValueError
      else toposort_rounds
             (filter (\<lambda>(v, ps). v \<notin> set (ready_names data sorted_names)) data)
             (sorted_names @ ready_names data sorted_names))"
  by pat_completeness auto
termination
proof (relation "measure (\<lambda>(data, sorted_names). length data)")
  show "wf (measure (\<lambda>(data, sorted_names). length data))"
    by simp
next
  fix data :: dependencies and sorted_names :: "name list"
  let ?r = "ready_names data sorted_names"
  assume "?r \<noteq> []"
  then obtain x where x: "x \<in> set ?r"
    by (cases ?r) auto
  with ready_names_subset [of data sorted_names] obtain ps where mem: "(x, ps) \<in> set data"
    by auto
  from x have "\<not> (case (x, ps) of (v, ps) \<Rightarrow> v \<notin> set ?r)"
    by simp
  with mem have "length (filter (\<lambda>(v, ps). v \<notin> set ?r) data) < length data"
    by (rule length_filter_less)
  then show "((filter (\<lambda>(v, ps). v \<notin> set ?r) data, sorted_names @ ?r), (data, sorted_names))
          \<in> measure (\<lambda>(data, sorted_names). length data)"
    by simp
qed

declare toposort_rounds.simps [simp del]

definition toposort_model :: "dependencies \<Rightarrow> error + name list" where
  "toposort_model dependencies =
     toposort_rounds
       (map (\<lambda>p. (p, []))
          (filter (\<lambda>p. p \<notin> fst ` set dependencies) (remdups (concat (map snd dependencies))))
        @ dependencies) []"

section \<open>Concrete modules, dataflows and schedulers\<close>

text \<open>The inputs at which the theorems below are evaluated.\<close>

definition m0 :: module where
  "m0 = \<lparr>name = ''m'', state = Blocked, input_slots = [], input_descriptors = [],
         output_slots = [], output_descriptors = [], order = None, steps_acc = 0, last_update = 0,
         is_input = False, is_visualization = False\<rparr>"

definition slot_buffered_dead :: slot where
  "slot_buffered_dead =
     \<lparr>output_module = \<lparr>p_name = ''src'', p_state = Terminated, p_last_update = 4\<rparr>,
      output_name = ''table'', input_name = ''df'', has_buffered = True,
      slot_last_update = 4, validate_types = True\<rparr>"

definition slot_idle_dead :: slot where
  "slot_idle_dead =
     \<lparr>output_module = \<lparr>p_name = ''old'', p_state = Invalid, p_last_update = 2\<rparr>,
      output_name = ''table'', input_name = ''other'', has_buffered = False,
      slot_last_update = 3, validate_types = True\<rparr>"

definition blocked_module :: "(name \<times> slot option) list \<Rightarrow> module" where
  "blocked_module slots =
     \<lparr>name = ''every_1'', state = Blocked, input_slots = slots,
      input_descriptors = [(''df'', True), (''other'', False), (''_params'', False)],
      output_slots = [(''_trace'', None)], output_descriptors = [(''_trace'', False)],
      order = None, steps_acc = 0, last_update = 0, is_input = False,
      is_visualization = False\<rparr>"

definition module_init_ex :: "kwds \<Rightarrow> error + module" where
  "module_init_ex kw =
     (case map_of kw ''name'' of
        Some (PStr n) \<Rightarrow> Inr (m0\<lparr>name := n, state := Created\<rparr>)
      | _ \<Rightarrow> Inr (m0\<lparr>name := ''print_1'', state := Created\<rparr>))"

definition created_module :: "name \<Rightarrow> module" where
  "created_module n = m0\<lparr>name := n, state := Created\<rparr>"

definition df_empty :: dataflow where
  "df_empty = \<lparr>df_modules = [], df_inputs = [], df_outputs = []\<rparr>"

text \<open>
  A producer \<open>p\<close> whose output \<open>out\<close> feeds the input \<open>in\<close> of \<open>c1\<close>, and a module
  \<open>c2\<close> that is not connected.
\<close>

definition df_pipe :: dataflow where
  "df_pipe =
     \<lparr>df_modules = [(''p'', created_module ''p''), (''c1'', created_module ''c1''),
                     (''c2'', created_module ''c2'')],
      df_inputs = [(''p'', []), (''c1'', [(''in'', (''p'', ''out''))]), (''c2'', [])],
      df_outputs = [(''p'', [(''out'', [(''c1'', ''in'')])]), (''c1'', []), (''c2'', [])]\<rparr>"

definition sched0 :: scheduler where
  "sched0 =
     \<lparr>modules = [], run_list = [], runorder = None, run_number = 0, new_modules_ids = [],
      slots_updated = False, valid = False, module_selection = None,
      selection_target_time = - 1, interaction_latency = 1, reachability = [],
      start_inter = 0, inter_cycles_cnt = 0, interaction_opts = None, timer_start = None\<rparr>"

text \<open>A scheduler in interaction mode: two selected modules, eight seconds left at clock 2.\<close>

definition sched_inter :: scheduler where
  "sched_inter =
     sched0\<lparr>module_selection := Some {''a'', ''b''}, selection_target_time := 10,
            timer_start := Some 0\<rparr>"

definition opts_iter :: interaction_opts where
  "opts_iter = \<lparr>starving_mods = None, max_time = Some 5, max_iter = Some 3\<rparr>"

text \<open>
  Three modules in a row: \<open>a\<close> feeds the visualization \<open>v\<close>, which feeds \<open>t\<close>.
  \<open>deps_avt\<close> is what \<^verbatim>\<open>_collect_dependencies\<close> gives for them.
\<close>

definition sched_avt :: scheduler where
  "sched_avt =
     sched0\<lparr>modules := [(''a'', created_module ''a''),
                         (''v'', (created_module ''v'')\<lparr>is_visualization := True\<rparr>),
                         (''t'', created_module ''t'')]\<rparr>"

definition deps_avt :: dependencies where
  "deps_avt = [(''a'', []), (''v'', [''a'']), (''t'', [''v''])]"

text \<open>
  A module with one bound input \<open>in\<close>, fed by the output \<open>out\<close> of the module
  \<open>producer_name\<close>; \<open>req\<close> says whether the input is required.
\<close>

definition linked_module :: "name \<Rightarrow> name \<Rightarrow> bool \<Rightarrow> module" where
  "linked_module n producer_name req =
     (created_module n)
       \<lparr>input_slots :=
          [(''in'', Some \<lparr>output_module = \<lparr>p_name = producer_name, p_state = Created,
                                            p_last_update = 0\<rparr>,
                         output_name = ''out'', input_name = ''in'', has_buffered = False,
                         slot_last_update = 0, validate_types = True\<rparr>),
           (''_params'', None)],
        input_descriptors := [(''in'', req), (''_params'', False)],
        output_slots := [(''out'', None), (''_trace'', None)],
        output_descriptors := [(''out'', False), (''_trace'', False)]\<rparr>"

text \<open>
  A scheduler that runs the module \<open>a\<close> and has two new modules \<open>x\<close> and \<open>y\<close>, each
  feeding the other; \<open>y_req\<close> says whether the input of \<open>y\<close> is required.
\<close>

definition sched_cycle :: "bool \<Rightarrow> scheduler" where
  "sched_cycle y_req =
     sched0\<lparr>modules := [(''a'', (created_module ''a'')\<lparr>state := Blocked, order := Some 0\<rparr>),
                         (''x'', linked_module ''x'' ''y'' True),
                         (''y'', linked_module ''y'' ''x'' y_req)],
            run_list := [''a''], runorder := Some [''a''],
            new_modules_ids := [''x'', ''y'']\<rparr>"

text \<open>The same two modules in a dataflow.\<close>

definition df_cycle :: dataflow where
  "df_cycle =
     \<lparr>df_modules = [(''x'', linked_module ''x'' ''y'' True), (''y'', linked_module ''y'' ''x'' False)],
      df_inputs = [(''x'', [(''in'', (''y'', ''out''))]), (''y'', [(''in'', (''x'', ''out''))])],
      df_outputs = [(''x'', [(''out'', [(''y'', ''in'')])]), (''y'', [(''out'', [(''x'', ''in'')])])]\<rparr>"

section \<open>Step results\<close>

text \<open>
  C2. For a step result returned through \<^verbatim>\<open>_return_run_step\<close> with \<open>next_state\<close>
  one of Ready, Blocked, Zombie: when \<open>creates > 0\<close> and \<open>updates = 0\<close> the result has
  \<open>updates = creates\<close>; when \<open>creates > updates\<close> with \<open>updates\<close> nonzero a
  \<^verbatim>\<open>ProgressiveError\<close> is raised and nothing is returned; every returned result has
  \<open>creates \<le> updates\<close>.
\<close>

theorem return_run_step_creates_le_updates:
  assumes "nxt \<in> state_code ` {Ready, Blocked, Zombie}"
  shows "(0 < crt \<and> upd = 0 \<longrightarrow>
            (\<exists>r self'. return_run_step self nxt steps rds upd crt = Inr (r, self') \<and> updates r = crt))
       \<and> (crt > upd \<and> upd \<noteq> 0 \<longrightarrow>
            (\<exists>self'. return_run_step self nxt steps rds upd crt = Inl (ProgressiveError, self')))
       \<and> (\<forall>r self'. return_run_step self nxt steps rds upd crt = Inr (r, self') \<longrightarrow>
            creates r \<le> updates r)"
  using assms by (auto simp: return_run_step_def Let_def split: if_splits)

theorem return_run_step_creates_le_updates_witness:
  "state_code Blocked \<in> state_code ` {Ready, Blocked, Zombie}
   \<and> return_run_step m0 (state_code Blocked) 1 0 0 5 =
       Inr (\<lparr>next_state = 3, steps_run = 1, reads = 0, updates = 5, creates = 5\<rparr>, m0\<lparr>steps_acc := 1\<rparr>)
   \<and> return_run_step m0 (state_code Blocked) 1 0 2 5 = Inl (ProgressiveError, m0\<lparr>steps_acc := 1\<rparr>)
   \<and> creates (fst (projr (return_run_step m0 (state_code Blocked) 1 0 7 5)))
       \<le> updates (fst (projr (return_run_step m0 (state_code Blocked) 1 0 7 5)))"
  using return_run_step_creates_le_updates
    [where nxt = "state_code Blocked" and self = m0 and steps = 1 and rds = 0 and upd = 7 and crt = 5]
  by (simp add: return_run_step_def m0_def)

section \<open>Readiness\<close>

lemma fold_scan_slot:
  "fold scan_slot vs (i, t, r) =
     (i + length (List.map_filter id vs),
      t + length (filter (\<lambda>s. \<not> slot_ready s \<and> producer_dead s) (List.map_filter id vs)),
      r + length (filter slot_ready (List.map_filter id vs)))"
proof (induction vs arbitrary: i t r)
  case Nil
  show ?case by simp
next
  case (Cons v vs)
  show ?case
  proof (cases v)
    case None
    then show ?thesis using Cons.IH by simp
  next
    case (Some s)
    then show ?thesis using Cons.IH
      by (simp add: slot_ready_def producer_dead_def)
  qed
qed

lemma map_filter_id_empty:
  "List.map_filter id vs = [] \<longleftrightarrow> \<not> list_ex (\<lambda>v. v \<noteq> None) vs"
  by (induction vs) (auto split: option.splits)

lemma has_any_input_bound: "has_any_input self \<longleftrightarrow> bound_slots self \<noteq> []"
  by (simp add: has_any_input_def bound_slots_def input_slot_values_def map_filter_id_empty)

text \<open>
  C1, as the code has it. The default \<^verbatim>\<open>is_ready\<close>: a Zombie becomes Terminated and
  is not ready; a Terminated or Invalid module is not ready; a module with no bound input
  slot is ready; a Ready module is ready; a Blocked module that is not an input module and
  all of whose bound inputs are both without pending data (no buffered deltas, producer's
  \<open>last_update\<close> not beyond the slot's) and fed by a Terminated or Invalid producer
  becomes Zombie and is not ready; any other Blocked module is ready iff some bound input
  has buffered deltas or a producer whose \<open>last_update\<close> exceeds the slot's. A slot with
  pending data is never counted as terminated, whatever the state of its producer.
\<close>

theorem is_ready_cases:
  "is_ready self =
     (if state self = Zombie then (False, self\<lparr>state := Terminated\<rparr>)
      else if state self = Terminated \<or> state self = Invalid then (False, self)
      else if bound_slots self = [] then (True, self)
      else if state self = Ready then (True, self)
      else if state self = Blocked then
        (if \<not> is_input self \<and>
            length (filter (\<lambda>s. \<not> slot_ready s \<and> producer_dead s) (bound_slots self))
              = length (bound_slots self)
         then (False, self\<lparr>state := Zombie\<rparr>)
         else (0 < length (filter slot_ready (bound_slots self)), self))
      else (False, self))"
proof -
  have scan: "fold scan_slot (input_slot_values self) (0, 0, 0) =
      (length (bound_slots self),
       length (filter (\<lambda>s. \<not> slot_ready s \<and> producer_dead s) (bound_slots self)),
       length (filter slot_ready (bound_slots self)))"
    by (simp add: fold_scan_slot bound_slots_def)
  show ?thesis
    by (auto simp: is_ready_def scan has_any_input_bound)
qed

theorem is_ready_cases_witness:
  "is_ready (blocked_module [(''df'', Some slot_buffered_dead), (''other'', Some slot_idle_dead), (''_params'', None)])
     = (True, blocked_module [(''df'', Some slot_buffered_dead), (''other'', Some slot_idle_dead), (''_params'', None)])
   \<and> is_ready (blocked_module [(''df'', None), (''other'', Some slot_idle_dead), (''_params'', None)])
     = (False, (blocked_module [(''df'', None), (''other'', Some slot_idle_dead), (''_params'', None)])\<lparr>state := Zombie\<rparr>)"
  using is_ready_cases [of "blocked_module [(''df'', Some slot_buffered_dead), (''other'', Some slot_idle_dead), (''_params'', None)]"]
    is_ready_cases [of "blocked_module [(''df'', None), (''other'', Some slot_idle_dead), (''_params'', None)]"]
  by (simp add: blocked_module_def bound_slots_def input_slot_values_def slot_ready_def
      producer_dead_def slot_buffered_dead_def slot_idle_dead_def)

text \<open>
  C1, as stated, fails: a Blocked module that is not an input module, whose only bound
  input has a Terminated producer (so the bound inputs and the inputs with a Terminated or
  Invalid producer are equally many, one), is ready and stays Blocked when that slot still
  has buffered deltas.
\<close>

theorem is_ready_all_producers_dead_counterexample:
  "state (blocked_module [(''df'', Some slot_buffered_dead), (''_params'', None)]) = Blocked
   \<and> \<not> is_input (blocked_module [(''df'', Some slot_buffered_dead), (''_params'', None)])
   \<and> length (bound_slots (blocked_module [(''df'', Some slot_buffered_dead), (''_params'', None)]))
       = length (filter producer_dead
           (bound_slots (blocked_module [(''df'', Some slot_buffered_dead), (''_params'', None)])))
   \<and> 0 < length (filter producer_dead
           (bound_slots (blocked_module [(''df'', Some slot_buffered_dead), (''_params'', None)])))
   \<and> is_ready (blocked_module [(''df'', Some slot_buffered_dead), (''_params'', None)])
       = (True, blocked_module [(''df'', Some slot_buffered_dead), (''_params'', None)])"
  by (simp add: is_ready_def has_any_input_def input_slot_values_def blocked_module_def
      bound_slots_def producer_dead_def slot_buffered_dead_def)

section \<open>Constant-time modules\<close>

text \<open>
  C9. An \<^verbatim>\<open>Every\<close> module with \<open>constant_time\<close> set predicts a step size of 1 for
  every duration, and so does every \<^verbatim>\<open>Print\<close> module that its constructor returns,
  whatever keywords it was built from and whatever the predictor would say.
\<close>

theorem predict_step_size_constant_time:
  "(constant_time self \<longrightarrow> predict_step_size predict self duration = 1)
   \<and> (Print_init module_init kw = Inr p \<longrightarrow> predict_step_size predict p duration = 1)"
  by (auto simp: predict_step_size_def Print_init_def Every_init_def Let_def
      split: if_splits sum.splits)

theorem predict_step_size_constant_time_witness:
  "Print_init module_init_ex [(''name'', PStr ''prt'')] =
     Inr \<lparr>base = created_module ''prt'', proc = PProc ''_prt'', constant_time = True\<rparr>
   \<and> predict_step_size (\<lambda>d. 100)
       \<lparr>base = created_module ''prt'', proc = PProc ''_prt'', constant_time = True\<rparr> (1 / 30) = 1"
  using predict_step_size_constant_time
    [where module_init = module_init_ex and kw = "[(''name'', PStr ''prt'')]"
       and p = "\<lparr>base = created_module ''prt'', proc = PProc ''_prt'', constant_time = True\<rparr>"
       and predict = "\<lambda>d. 100" and duration = "1 / 30"
       and self = "\<lparr>base = created_module ''prt'', proc = PProc ''_prt'', constant_time = True\<rparr>"]
  by (simp add: Print_init_def Every_init_def module_init_ex_def created_module_def)

section \<open>Interaction mode\<close>

text \<open>
  C10. \<^verbatim>\<open>has_input\<close> writes: on a scheduler whose \<open>module_selection\<close> is the empty
  set it resets \<open>module_selection\<close> to \<open>None\<close> and \<open>selection_target_time\<close> to -1 and
  returns False; after any call \<open>module_selection\<close> is \<open>None\<close> or a non-empty set.
\<close>

theorem has_input_resets_empty_selection:
  "(module_selection s = Some {} \<longrightarrow>
      has_input s = (False, s\<lparr>module_selection := None, selection_target_time := - 1\<rparr>))
   \<and> (module_selection (snd (has_input s)) = None
        \<or> (\<exists>sel. module_selection (snd (has_input s)) = Some sel \<and> sel \<noteq> {}))"
  by (auto simp: has_input_def split: option.splits)

theorem has_input_resets_empty_selection_witness:
  "module_selection (sched0\<lparr>module_selection := Some {}, selection_target_time := 7\<rparr>) = Some {}
   \<and> has_input (sched0\<lparr>module_selection := Some {}, selection_target_time := 7\<rparr>) = (False, sched0)"
  using has_input_resets_empty_selection
    [of "sched0\<lparr>module_selection := Some {}, selection_target_time := 7\<rparr>"]
  by (simp add: sched0_def)

lemma has_input_True: "fst (has_input s) \<Longrightarrow> snd (has_input s) = s"
  by (auto simp: has_input_def split: option.splits if_splits)

text \<open>
  C7, as the code has it. \<^verbatim>\<open>fix_quantum(m, q)\<close> never returns 0. In interaction mode
  it returns \<^verbatim>\<open>time_left()\<close> divided by the size of \<open>module_selection\<close> only for a
  module whose name is in \<open>module_selection\<close> (0.1 when that quotient is 0); for any
  other module, and outside interaction mode, it returns the given quantum (0.1 when that
  is 0).
\<close>

theorem fix_quantum_cases:
  "fst (fix_quantum s m q clock) \<noteq> 0
   \<and> (fst (has_input s) \<and> name m \<in> the (module_selection s) \<longrightarrow>
        fst (fix_quantum s m q clock) =
          (if fst (time_left s clock) / real (card (the (module_selection s))) = 0 then 1 / 10
           else fst (time_left s clock) / real (card (the (module_selection s)))))
   \<and> (\<not> (fst (has_input s) \<and> name m \<in> the (module_selection s)) \<longrightarrow>
        fst (fix_quantum s m q clock) = (if q = 0 then 1 / 10 else q))"
proof (cases "fst (has_input s)")
  case True
  then show ?thesis
    by (simp add: fix_quantum_def has_input_True Let_def split: prod.splits)
next
  case False
  then show ?thesis
    by (simp add: fix_quantum_def Let_def split: prod.splits)
qed

theorem fix_quantum_cases_witness:
  "fst (has_input sched_inter) \<and> name (created_module ''a'') \<in> the (module_selection sched_inter)
   \<and> fst (fix_quantum sched_inter (created_module ''a'') (1 / 2) 2) = 4
   \<and> fst (fix_quantum sched_inter (created_module ''a'') (1 / 2) 12) = 1 / 10
   \<and> fst (fix_quantum sched0 (created_module ''a'') 0 2) = 1 / 10"
  using fix_quantum_cases [of sched_inter "created_module ''a''" "1 / 2" 2]
    fix_quantum_cases [of sched_inter "created_module ''a''" "1 / 2" 12]
    fix_quantum_cases [of sched0 "created_module ''a''" 0 2]
  by (simp add: sched_inter_def sched0_def created_module_def m0_def has_input_def
      time_left_def timer_def)

text \<open>
  C7, as stated, fails: in interaction mode, for a module that is not in
  \<open>module_selection\<close>, the given quantum comes back and not the share of the time left.
\<close>

theorem fix_quantum_unselected_counterexample:
  "fst (has_input sched_inter)
   \<and> fst (fix_quantum sched_inter (created_module ''h'') (1 / 2) 2) = 1 / 2
   \<and> fst (time_left sched_inter 2) / real (card (the (module_selection sched_inter))) = 4"
  by (simp add: fix_quantum_def sched_inter_def sched0_def created_module_def m0_def
      has_input_def time_left_def timer_def)

text \<open>
  C8. In a pass of \<^verbatim>\<open>_proc_interaction_opts\<close> in interaction mode with options set
  (the cycle counter is never negative: it starts at 0 and is only incremented or reset):
  the counter is incremented only if neither the \<open>starving_mods\<close> exit nor the
  \<open>max_time\<close> exit fired in that pass, and it is incremented whenever neither fired and
  it is still below a set \<open>max_iter\<close>; when the counter has reached \<open>max_iter\<close> the
  scheduler leaves interaction mode, \<open>module_selection\<close> reset to \<open>None\<close> and the counter
  to 0.
\<close>

theorem proc_interaction_opts_max_iter:
  assumes "fst (has_input s)" and "interaction_opts s = Some opts" and "0 \<le> inter_cycles_cnt s"
  shows "(inter_cycles_cnt (proc_interaction_opts s clock) = inter_cycles_cnt s + 1 \<longrightarrow>
            \<not> starving_fired opts \<and> \<not> max_time_fired opts s clock)
       \<and> (\<forall>n. max_iter opts = Some n \<and> n \<noteq> 0 \<and> inter_cycles_cnt s < n
              \<and> \<not> starving_fired opts \<and> \<not> max_time_fired opts s clock \<longrightarrow>
            proc_interaction_opts s clock = s\<lparr>inter_cycles_cnt := inter_cycles_cnt s + 1\<rparr>)
       \<and> (\<forall>n. max_iter opts = Some n \<and> n \<noteq> 0 \<and> inter_cycles_cnt s \<ge> n \<longrightarrow>
            module_selection (proc_interaction_opts s clock) = None
            \<and> inter_cycles_cnt (proc_interaction_opts s clock) = 0)"
  using assms
  by (auto simp: proc_interaction_opts_def has_input_True leave_interaction_def Let_def
      split: option.splits)

theorem proc_interaction_opts_max_iter_witness:
  "fst (has_input (sched_inter\<lparr>interaction_opts := Some opts_iter\<rparr>))
   \<and> proc_interaction_opts (sched_inter\<lparr>interaction_opts := Some opts_iter\<rparr>) 1
       = sched_inter\<lparr>interaction_opts := Some opts_iter, inter_cycles_cnt := 1\<rparr>
   \<and> inter_cycles_cnt
       (proc_interaction_opts (sched_inter\<lparr>interaction_opts := Some opts_iter\<rparr>) 6) = 0
   \<and> module_selection
       (proc_interaction_opts (sched_inter\<lparr>interaction_opts := Some opts_iter, inter_cycles_cnt := 3\<rparr>) 1)
       = None"
  using proc_interaction_opts_max_iter
    [of "sched_inter\<lparr>interaction_opts := Some opts_iter\<rparr>" opts_iter 1]
    proc_interaction_opts_max_iter
    [of "sched_inter\<lparr>interaction_opts := Some opts_iter\<rparr>" opts_iter 6]
    proc_interaction_opts_max_iter
    [of "sched_inter\<lparr>interaction_opts := Some opts_iter, inter_cycles_cnt := 3\<rparr>" opts_iter 1]
  by (simp add: sched_inter_def sched0_def opts_iter_def has_input_def starving_fired_def
      max_time_fired_def proc_interaction_opts_def leave_interaction_def)

section \<open>Connections of the dataflow\<close>

lemma df_pipe_built:
  "(case add_module df_empty (created_module ''p'') of Inl e \<Rightarrow> Inl e | Inr d1 \<Rightarrow>
     (case add_module d1 (created_module ''c1'') of Inl e \<Rightarrow> Inl e | Inr d2 \<Rightarrow>
       (case add_module d2 (created_module ''c2'') of Inl e \<Rightarrow> Inl e | Inr d3 \<Rightarrow>
          add_connection d3 (created_module ''p'') ''out'' (created_module ''c1'') ''in'')))
   = Inr df_pipe"
  by (simp add: add_module_def add_connection_def df_empty_def df_pipe_def created_module_def m0_def)

text \<open>
  The first connection of a producer output: the forward binding is written and the
  output gets a fan-out list that holds the reverse edge.
\<close>

lemma add_connection_first_consumer:
  assumes "map_of (df_inputs df) (name input_mod) = Some ins" and "map_of ins iname = None"
    and "map_of (df_outputs df) (name output_mod) = Some outs" and "map_of outs oname = None"
  shows "\<exists>df'. add_connection df output_mod oname input_mod iname = Inr df'
           \<and> map_of (the (map_of (df_inputs df') (name input_mod))) iname
               = Some (name output_mod, oname)
           \<and> map_of (the (map_of (df_outputs df') (name output_mod))) oname
               = Some [(name input_mod, iname)]"
  using assms by (simp add: add_connection_def update_conv')

text \<open>
  C5 at a producer output that already has a fan-out entry: the forward binding of the
  new consumer is written, then the append is made on the dictionary of the producer's
  outputs and not on the list of the output, and \<^verbatim>\<open>AttributeError\<close> is raised; the
  reverse edge is not recorded.
\<close>

theorem add_connection_second_consumer_raises:
  "add_connection df_pipe (created_module ''p'') ''out'' (created_module ''c2'') ''in'' =
     Inl (AttributeError,
       df_pipe\<lparr>df_inputs := [(''p'', []), (''c1'', [(''in'', (''p'', ''out''))]),
                             (''c2'', [(''in'', (''p'', ''out''))])]\<rparr>)"
  by (simp add: add_connection_def df_pipe_def created_module_def m0_def)

text \<open>
  Removing a module that feeds nothing works: \<open>c1\<close> leaves the three dictionaries and
  the fan-out list of its producer.
\<close>

lemma remove_module_sink:
  "remove_module df_pipe (created_module ''c1'') =
     Inr ((created_module ''c1'')\<lparr>state := Zombie\<rparr>,
          \<lparr>df_modules = [(''p'', created_module ''p''), (''c2'', created_module ''c2'')],
           df_inputs = [(''p'', []), (''c2'', [])],
           df_outputs = [(''p'', []), (''c2'', [])]\<rparr>)"
  by (simp add: remove_module_def remove_module_inputs_def remove_module_outputs_def
      terminate_def df_pipe_def created_module_def m0_def)

text \<open>
  C4 at a module that has a consumer: \<^verbatim>\<open>remove_module\<close> marks the producer Zombie,
  deletes it from the modules and the inputs, and then fails the assertion of
  \<^verbatim>\<open>_remove_module_outputs\<close>: the consumer's input still names the producer and the
  producer's outputs are still there.
\<close>

theorem remove_module_with_consumer_raises:
  "remove_module df_pipe (created_module ''p'') =
     Inl (AssertionError, (created_module ''p'')\<lparr>state := Zombie\<rparr>,
       \<lparr>df_modules = [(''c1'', created_module ''c1''), (''c2'', created_module ''c2'')],
        df_inputs = [(''c1'', [(''in'', (''p'', ''out''))]), (''c2'', [])],
        df_outputs = [(''p'', [(''out'', [(''c1'', ''in'')])]), (''c1'', []), (''c2'', [])]\<rparr>)"
  by (simp add: remove_module_def remove_module_inputs_def remove_module_outputs_def
      terminate_def df_pipe_def created_module_def m0_def)

section \<open>Reachability\<close>

text \<open>
  The search by levels finds exactly the vertices that a directed path reaches, and gives
  distance 0 to the start alone.
\<close>

lemma set_next_level:
  "set (next_level es fr seen) = {c. (\<exists>r\<in>set fr. (r, c) \<in> set es) \<and> c \<notin> fst ` set seen}"
  by (auto simp: next_level_def map_of_eq_None_iff intro: rev_image_eqI)

lemma bfs_closed:
  assumes "set fr \<subseteq> fst ` set seen"
    and "\<forall>x\<in>fst ` set seen - set fr. \<forall>y. (x, y) \<in> set es \<longrightarrow> y \<in> fst ` set seen"
  shows "\<forall>x\<in>fst ` set (bfs es d fr seen). \<forall>y. (x, y) \<in> set es \<longrightarrow> y \<in> fst ` set (bfs es d fr seen)"
  using assms
proof (induction es d fr seen rule: bfs.induct)
  case (1 es d fr seen)
  let ?n = "next_level es fr seen"
  show ?case
  proof (cases "?n = []")
    case True
    then have "\<forall>c. (\<exists>r\<in>set fr. (r, c) \<in> set es) \<longrightarrow> c \<in> fst ` set seen"
      using set_next_level [of es fr seen] by auto
    with "1.prems" True show ?thesis
      by (subst bfs.simps, subst bfs.simps) (simp, blast)
  next
    case False
    let ?seen' = "seen @ map (\<lambda>c. (c, Suc d)) ?n"
    have dom': "fst ` set ?seen' = fst ` set seen \<union> set ?n"
      by (auto simp: image_Un image_image)
    have a: "set ?n \<subseteq> fst ` set ?seen'"
      using dom' by blast
    have b: "\<forall>x\<in>fst ` set ?seen' - set ?n. \<forall>y. (x, y) \<in> set es \<longrightarrow> y \<in> fst ` set ?seen'"
    proof (intro ballI allI impI)
      fix x y assume x: "x \<in> fst ` set ?seen' - set ?n" and e: "(x, y) \<in> set es"
      from x dom' have xs: "x \<in> fst ` set seen" by blast
      show "y \<in> fst ` set ?seen'"
      proof (cases "x \<in> set fr")
        case True
        with e have "y \<in> fst ` set seen \<or> y \<in> set ?n"
          unfolding set_next_level by blast
        with dom' show ?thesis by blast
      next
        case False
        with xs e "1.prems"(2) have "y \<in> fst ` set seen" by blast
        with dom' show ?thesis by blast
      qed
    qed
    from "1.IH" [OF False a b] False show ?thesis
      by (subst bfs.simps, subst bfs.simps) simp
  qed
qed

lemma bfs_mono: "fst ` set seen \<subseteq> fst ` set (bfs es d fr seen)"
proof (induction es d fr seen rule: bfs.induct)
  case (1 es d fr seen)
  show ?case
  proof (cases "next_level es fr seen = []")
    case True
    then show ?thesis by (subst bfs.simps) simp
  next
    case False
    from "1.IH" [OF False] False show ?thesis
      by (subst bfs.simps) (auto simp: image_Un)
  qed
qed

lemma bfs_sound:
  "fst ` set (bfs es d fr seen) \<subseteq> fst ` set seen \<union> (set es)\<^sup>* `` set fr"
proof (induction es d fr seen rule: bfs.induct)
  case (1 es d fr seen)
  let ?n = "next_level es fr seen"
  show ?case
  proof (cases "?n = []")
    case True
    then show ?thesis by (subst bfs.simps) simp
  next
    case False
    have n: "set ?n \<subseteq> (set es)\<^sup>* `` set fr"
      unfolding set_next_level by auto
    then have up: "(set es)\<^sup>* `` set ?n \<subseteq> (set es)\<^sup>* `` set fr"
      by (auto intro: rtrancl_trans)
    have step: "bfs es d fr seen = bfs es (Suc d) ?n (seen @ map (\<lambda>c. (c, Suc d)) ?n)"
      using False by (subst bfs.simps) simp
    have dom': "fst ` set (seen @ map (\<lambda>c. (c, Suc d)) ?n) = fst ` set seen \<union> set ?n"
      by (auto simp: image_Un image_image)
    from "1.IH" [OF False] have
      "fst ` set (bfs es d fr seen) \<subseteq> fst ` set seen \<union> set ?n \<union> (set es)\<^sup>* `` set ?n"
      unfolding step dom' .
    with n up show ?thesis by blast
  qed
qed

lemma bfs_zero:
  "map_of (bfs es d fr seen) j = Some 0 \<longleftrightarrow> map_of seen j = Some 0"
proof (induction es d fr seen rule: bfs.induct)
  case (1 es d fr seen)
  let ?n = "next_level es fr seen"
  show ?case
  proof (cases "?n = []")
    case True
    then show ?thesis by (subst bfs.simps) simp
  next
    case False
    have "map_of (map (\<lambda>c. (c, Suc d)) ?n) j \<noteq> Some 0"
      by (auto dest!: map_of_SomeD)
    then have "map_of (seen @ map (\<lambda>c. (c, Suc d)) ?n) j = Some 0 \<longleftrightarrow> map_of seen j = Some 0"
      by (auto simp: map_add_def split: option.splits)
    with "1.IH" [OF False] False show ?thesis
      by (subst bfs.simps) simp
  qed
qed

lemma closed_rtrancl:
  assumes "i \<in> X" and "\<forall>x\<in>X. \<forall>y. (x, y) \<in> r \<longrightarrow> y \<in> X" and "(i, j) \<in> r\<^sup>*"
  shows "j \<in> X"
  using assms(3) assms(1,2) by (induction rule: rtrancl_induct) auto

lemma shortest_path_reach: "shortest_path es i j \<noteq> None \<longleftrightarrow> (i, j) \<in> (set es)\<^sup>*"
proof
  assume "shortest_path es i j \<noteq> None"
  then have "j \<in> fst ` set (bfs es 0 [i] [(i, 0)])"
    by (auto simp: shortest_path_def map_of_eq_None_iff)
  with bfs_sound [of es 0 "[i]" "[(i, 0)]"] show "(i, j) \<in> (set es)\<^sup>*"
    by auto
next
  assume r: "(i, j) \<in> (set es)\<^sup>*"
  have i: "i \<in> fst ` set (bfs es 0 [i] [(i, 0)])"
    using bfs_mono [of "[(i, 0)]" es 0 "[i]"] by simp
  have c: "\<forall>x\<in>fst ` set (bfs es 0 [i] [(i, 0)]). \<forall>y. (x, y) \<in> set es \<longrightarrow> y \<in> fst ` set (bfs es 0 [i] [(i, 0)])"
    by (rule bfs_closed) simp_all
  from closed_rtrancl [OF i c r] show "shortest_path es i j \<noteq> None"
    by (simp add: shortest_path_def map_of_eq_None_iff)
qed

lemma shortest_path_zero: "shortest_path es i j = Some 0 \<longleftrightarrow> j = i"
  by (simp add: shortest_path_def bfs_zero)

lemma reach_row_eq:
  assumes "i < length k"
  shows "reach_row k (shortest_path es) i = {k ! j | j. j < length k \<and> (i, j) \<in> (set es)\<^sup>*}"
  using assms shortest_path_reach [of es i] shortest_path_zero [of es i]
  by (auto simp: reach_row_def)


text \<open>
  The loop of \<^verbatim>\<open>_compute_reachability\<close>: what it leaves in the two accumulators when
  it returns, and when it and the construction of the matrix return.
\<close>

lemma map_of_fold_update_other:
  "u \<notin> f ` set xs \<Longrightarrow> map_of (fold (\<lambda>i. AList.update (f i) (g i)) xs r) u = map_of r u"
  by (induction xs arbitrary: r) (auto simp: update_conv')

lemma map_of_fold_update:
  "inj_on f (set xs) \<Longrightarrow> distinct xs \<Longrightarrow> i \<in> set xs \<Longrightarrow>
     map_of (fold (\<lambda>i. AList.update (f i) (g i)) xs r) (f i) = Some (g i)"
proof (induction xs arbitrary: r)
  case Nil
  then show ?case by simp
next
  case (Cons x xs)
  show ?case
  proof (cases "i = x")
    case True
    with Cons.prems have "f x \<notin> f ` set xs"
      by (auto simp: inj_on_def)
    with True show ?thesis
      by (simp add: map_of_fold_update_other update_conv')
  next
    case False
    with Cons show ?thesis by (auto simp: inj_on_def)
  qed
qed

lemma reach_loop_result:
  assumes "reach_loop mods vis k dists xs reach rnv = Inr (reach', rnv')"
    and "\<forall>i\<in>set xs. k ! i \<in> reach_row k dists i"
  shows "reach' = fold (\<lambda>i. AList.update (k ! i) (reach_row k dists i)) xs reach
       \<and> rnv' = rnv \<union> \<Union> {reach_row k dists i | i. i \<in> set xs \<and> vis \<inter> reach_row k dists i = {}}"
  using assms
proof (induction xs arbitrary: reach rnv)
  case Nil
  then show ?case by simp
next
  case (Cons x xs)
  let ?s = "reach_row k dists x"
  let ?r1 = "AList.update (k ! x) ?s reach"
  have mem: "k ! x \<in> ?s" using Cons.prems(2) by simp
  have rest: "\<forall>i\<in>set xs. k ! i \<in> reach_row k dists i" using Cons.prems(2) by simp
  show ?case
  proof (cases "vis \<inter> ?s = {}")
    case True
    with Cons.prems(1) obtain m where m: "map_of mods (k ! x) = Some m"
      by (auto simp: Let_def split: option.splits)
    have ins: "insert (k ! x) (rnv \<union> ?s) = rnv \<union> ?s" using mem by blast
    from Cons.prems(1) True m ins
    have "reach_loop mods vis k dists xs ?r1 (rnv \<union> ?s) = Inr (reach', rnv')"
      by (simp add: Let_def split: if_splits)
    from Cons.IH [OF this rest] True show ?thesis
      by auto
  next
    case False
    with Cons.prems(1)
    have "reach_loop mods vis k dists xs ?r1 rnv = Inr (reach', rnv')"
      by (simp add: Let_def)
    from Cons.IH [OF this rest] False show ?thesis
      by auto
  qed
qed

lemma reach_loop_succeeds:
  assumes "\<forall>i\<in>set xs. map_of mods (k ! i) \<noteq> None"
  shows "\<exists>r. reach_loop mods vis k dists xs reach rnv = Inr r"
  using assms
  by (induction xs arbitrary: reach rnv) (auto simp: Let_def split: option.splits)

lemma fst_zip_upt: "fst ` set (zip k [0..<length k]) = set k"
proof -
  have "fst ` set (zip k [0..<length k]) = set (map fst (zip k [0..<length k]))"
    by (simp only: set_map)
  also have "map fst (zip k [0..<length k]) = k"
    by (rule map_fst_zip) simp
  finally show ?thesis .
qed

lemma index_of_Some: "v \<in> set k \<Longrightarrow> \<exists>i. index_of k v = Some i"
  unfolding index_of_def
  by (cases "map_of (zip k [0..<length k]) v") (auto simp: map_of_eq_None_iff fst_zip_upt)

lemma vertex_entries_succeeds:
  "vertex1 \<in> set k \<Longrightarrow> set vs \<subseteq> set k \<Longrightarrow> \<exists>es. vertex_entries (index_of k) vertex1 vs = Inr es"
proof (induction vs)
  case Nil
  then show ?case by simp
next
  case (Cons v vs)
  then obtain es where "vertex_entries (index_of k) vertex1 vs = Inr es" by auto
  moreover obtain c where "index_of k vertex1 = Some c" using Cons.prems index_of_Some by blast
  moreover obtain r where "index_of k v = Some r" using Cons.prems index_of_Some [of v k] by auto
  ultimately show ?case by simp
qed

lemma matrix_entries_succeeds:
  "fst ` set deps \<subseteq> set k \<Longrightarrow> \<forall>(v, ps)\<in>set deps. set ps \<subseteq> set k \<Longrightarrow>
     \<exists>es. matrix_entries (index_of k) deps = Inr es"
proof (induction deps)
  case Nil
  then show ?case by simp
next
  case (Cons a deps)
  obtain v ps where a: "a = (v, ps)" by (cases a)
  with Cons.prems obtain es where "vertex_entries (index_of k) v ps = Inr es"
    using vertex_entries_succeeds [of v k ps] by auto
  moreover from Cons obtain es' where "matrix_entries (index_of k) deps = Inr es'" by auto
  ultimately show ?case using a by simp
qed


text \<open>
  Sets of descendants along the edges \<open>r\<close>, less the union \<open>D\<close> of those among them
  that hold no visualization: they stay transitively closed, and a vertex is in its own
  set exactly when that set holds a visualization.
\<close>

lemma descendants_closed:
  fixes k :: "'a list" and r :: "(nat \<times> nat) set"
  assumes dk: "distinct k"
    and S0: "\<And>i. i < length k \<Longrightarrow> S0 i = {k ! j | j. j < length k \<and> (i, j) \<in> r\<^sup>*}"
    and D: "D = \<Union> {S0 i | i. i < length k \<and> vis \<inter> S0 i = {}}"
    and i: "i < length k" and j: "j < length k"
    and v: "k ! j \<in> S0 i - D" and w: "w \<in> S0 j - D"
  shows "w \<in> S0 i - D"
proof -
  from v S0 [OF i] obtain j' where j': "j' < length k" "k ! j' = k ! j" "(i, j') \<in> r\<^sup>*"
    by auto
  with dk j have "j' = j" by (simp add: nth_eq_iff_index_eq)
  with j' have ij: "(i, j) \<in> r\<^sup>*" by simp
  from w S0 [OF j] obtain l where l: "l < length k" "w = k ! l" "(j, l) \<in> r\<^sup>*"
    by auto
  from ij l(3) have "(i, l) \<in> r\<^sup>*" by (rule rtrancl_trans)
  with l S0 [OF i] have "w \<in> S0 i" by auto
  with w show ?thesis by simp
qed

lemma descendants_reflexive:
  fixes k :: "'a list" and r :: "(nat \<times> nat) set"
  assumes dk: "distinct k"
    and S0: "\<And>i. i < length k \<Longrightarrow> S0 i = {k ! j | j. j < length k \<and> (i, j) \<in> r\<^sup>*}"
    and D: "D = \<Union> {S0 i | i. i < length k \<and> vis \<inter> S0 i = {}}"
    and i: "i < length k"
  shows "k ! i \<in> S0 i - D \<longleftrightarrow> (S0 i - D) \<inter> vis \<noteq> {}"
proof
  assume a: "k ! i \<in> S0 i - D"
  have "vis \<inter> S0 i \<noteq> {}"
  proof
    assume "vis \<inter> S0 i = {}"
    with i D have "S0 i \<subseteq> D" by blast
    with a show False by blast
  qed
  then obtain x where x: "x \<in> vis" "x \<in> S0 i" by blast
  have "x \<notin> D"
  proof
    assume "x \<in> D"
    with D obtain j where "j < length k" "vis \<inter> S0 j = {}" "x \<in> S0 j" by blast
    with x show False by blast
  qed
  with x show "(S0 i - D) \<inter> vis \<noteq> {}" by blast
next
  assume "(S0 i - D) \<inter> vis \<noteq> {}"
  then obtain x where x: "x \<in> vis" "x \<in> S0 i" by blast
  have self: "k ! i \<in> S0 i" using S0 [OF i] i by auto
  have "k ! i \<notin> D"
  proof
    assume "k ! i \<in> D"
    with D obtain j where j: "j < length k" "vis \<inter> S0 j = {}" "k ! i \<in> S0 j" by blast
    from j(3) S0 [OF j(1)] obtain i' where i': "i' < length k" "k ! i' = k ! i" "(j, i') \<in> r\<^sup>*"
      by auto
    with dk i have "i' = i" by (simp add: nth_eq_iff_index_eq)
    with i' have ji: "(j, i) \<in> r\<^sup>*" by simp
    from x(2) S0 [OF i] obtain l where l: "l < length k" "x = k ! l" "(i, l) \<in> r\<^sup>*" by auto
    from ji l(3) have "(j, l) \<in> r\<^sup>*" by (rule rtrancl_trans)
    with l S0 [OF j(1)] have "x \<in> S0 j" by auto
    with x(1) j(2) show False by blast
  qed
  with self show "k ! i \<in> S0 i - D" by simp
qed

lemma compute_reachability_entries:
  assumes dk: "distinct (map fst deps)"
    and ok: "compute_reachability s deps = Inr s'"
  shows "\<exists>mat. \<forall>u Su. map_of (reachability s') u = Some Su \<longleftrightarrow>
           (\<exists>i<length deps. u = map fst deps ! i \<and>
              Su = reach_row (map fst deps) (shortest_path mat) i
                 - \<Union> {reach_row (map fst deps) (shortest_path mat) i | i.
                        i < length deps
                        \<and> set (get_visualizations s) \<inter> reach_row (map fst deps) (shortest_path mat) i = {}})"
proof -
  let ?k = "map fst deps"
  let ?vis = "set (get_visualizations s)"
  from ok obtain mat reach rnv where
    mat: "matrix_entries (index_of ?k) deps = Inr mat"
    and loop: "reach_loop (modules s) ?vis ?k (shortest_path mat) [0..<length ?k] [] {} = Inr (reach, rnv)"
    and s': "reachability s' = map (\<lambda>(k, v). (k, v - rnv)) reach"
    by (auto simp: compute_reachability_def Let_def split: sum.splits prod.splits)
  let ?row = "reach_row ?k (shortest_path mat)"
  have self: "\<forall>i\<in>set [0..<length ?k]. ?k ! i \<in> ?row i"
    by (simp add: reach_row_def)
  from reach_loop_result [OF loop self]
  have reach: "reach = fold (\<lambda>i. AList.update (?k ! i) (?row i)) [0..<length ?k] []"
    and rnv: "rnv = \<Union> {?row i | i. i < length deps \<and> ?vis \<inter> ?row i = {}}"
    by auto
  have inj: "inj_on ((!) ?k) (set [0..<length ?k])"
    using dk by (intro inj_on_nth) simp_all
  have hit: "\<And>i. i < length deps \<Longrightarrow> map_of reach (?k ! i) = Some (?row i)"
    unfolding reach using inj by (intro map_of_fold_update) auto
  have miss: "\<And>u. u \<notin> set ?k \<Longrightarrow> map_of reach u = None"
  proof -
    fix u assume "u \<notin> set ?k"
    then have "u \<notin> (!) ?k ` set [0..<length ?k]"
      by (auto simp: set_conv_nth)
    then show "map_of reach u = None"
      unfolding reach by (simp add: map_of_fold_update_other)
  qed
  have final: "\<And>u. map_of (reachability s') u = map_option (\<lambda>v. v - rnv) (map_of reach u)"
    unfolding s' by (simp add: map_of_map)
  have "\<forall>u Su. map_of (reachability s') u = Some Su \<longleftrightarrow>
           (\<exists>i<length deps. u = ?k ! i \<and> Su = ?row i - rnv)"
  proof (intro allI iffI)
    fix u Su assume a: "map_of (reachability s') u = Some Su"
    then have "u \<in> set ?k" using miss [of u] final [of u] by (cases "u \<in> set ?k") auto
    then obtain i where i: "i < length deps" "u = ?k ! i"
      by (auto simp: set_conv_nth)
    with a hit [of i] final [of u] show "\<exists>i<length deps. u = ?k ! i \<and> Su = ?row i - rnv"
      by auto
  next
    fix u Su assume "\<exists>i<length deps. u = ?k ! i \<and> Su = ?row i - rnv"
    then show "map_of (reachability s') u = Some Su"
      using hit final by auto
  qed
  then show ?thesis unfolding rnv by blast
qed


text \<open>
  The matrix has an entry exactly where the dependency map has an edge from a producer to
  a consumer, so a row of the distance matrix gives the descendants of its module.
\<close>

lemma index_of_nth: "distinct k \<Longrightarrow> i < length k \<Longrightarrow> index_of k (k ! i) = Some i"
  unfolding index_of_def using map_of_zip_nth [of k "[0..<length k]" i] by simp

lemma index_of_SomeD: "index_of k v = Some i \<Longrightarrow> i < length k \<and> k ! i = v"
proof -
  assume "index_of k v = Some i"
  then have "(v, i) \<in> set (zip k [0..<length k])"
    unfolding index_of_def by (rule map_of_SomeD)
  then obtain j where "j < length k" "k ! j = v" "[0..<length k] ! j = i"
    by (auto simp: in_set_zip)
  then show ?thesis by simp
qed

lemma vertex_entries_set:
  "vertex_entries idx v ps = Inr es \<Longrightarrow>
     set es = {(r, c). \<exists>p\<in>set ps. idx p = Some r \<and> idx v = Some c}"
proof (induction ps arbitrary: es)
  case Nil
  then show ?case by auto
next
  case (Cons p ps)
  from Cons.prems obtain c r es' where
    c: "idx v = Some c" and r: "idx p = Some r"
    and rest: "vertex_entries idx v ps = Inr es'" and es: "es = (r, c) # es'"
    by (auto split: option.splits sum.splits)
  from Cons.IH [OF rest] c r es show ?case by auto
qed

lemma matrix_entries_set:
  "matrix_entries idx deps = Inr mat \<Longrightarrow>
     set mat = {(r, c). \<exists>v ps p. (v, ps) \<in> set deps \<and> p \<in> set ps \<and> idx p = Some r \<and> idx v = Some c}"
proof (induction deps arbitrary: mat)
  case Nil
  then show ?case by auto
next
  case (Cons a deps)
  obtain v ps where a: "a = (v, ps)" by (cases a)
  from Cons.prems a obtain es es' where
    first: "vertex_entries idx v ps = Inr es"
    and rest: "matrix_entries idx deps = Inr es'" and mat: "mat = es @ es'"
    by (auto split: sum.splits)
  from vertex_entries_set [OF first] Cons.IH [OF rest] a mat show ?case
    by auto
qed

lemma matrix_edge_iff:
  assumes kd: "k = map fst deps" and dk: "distinct k"
    and mat: "matrix_entries (index_of k) deps = Inr mat"
  shows "(i, j) \<in> set mat \<longleftrightarrow> i < length k \<and> j < length k \<and> (k ! i, k ! j) \<in> dep_edges deps"
proof
  assume "(i, j) \<in> set mat"
  with matrix_entries_set [OF mat] obtain v ps p where
    h: "(v, ps) \<in> set deps" "p \<in> set ps" "index_of k p = Some i" "index_of k v = Some j"
    by auto
  from index_of_SomeD [OF h(3)] have p: "i < length k" "k ! i = p" by simp_all
  from index_of_SomeD [OF h(4)] have v: "j < length k" "k ! j = v" by simp_all
  from h(1,2) have "(p, v) \<in> dep_edges deps" by (auto simp: dep_edges_def)
  with p v show "i < length k \<and> j < length k \<and> (k ! i, k ! j) \<in> dep_edges deps"
    by simp
next
  assume a: "i < length k \<and> j < length k \<and> (k ! i, k ! j) \<in> dep_edges deps"
  then obtain ps where ps: "(k ! j, ps) \<in> set deps" "k ! i \<in> set ps"
    by (auto simp: dep_edges_def)
  from a dk have "index_of k (k ! i) = Some i" "index_of k (k ! j) = Some j"
    by (simp_all add: index_of_nth)
  with ps matrix_entries_set [OF mat] show "(i, j) \<in> set mat"
    by blast
qed

lemma matrix_paths:
  assumes kd: "k = map fst deps" and dk: "distinct k"
    and mat: "matrix_entries (index_of k) deps = Inr mat"
    and i: "i < length k"
  shows "{k ! j | j. j < length k \<and> (i, j) \<in> (set mat)\<^sup>*} = descendants deps (k ! i)"
proof (intro equalityI subsetI)
  fix w assume "w \<in> {k ! j | j. j < length k \<and> (i, j) \<in> (set mat)\<^sup>*}"
  then obtain j where j: "w = k ! j" "(i, j) \<in> (set mat)\<^sup>*" by auto
  from j(2) have "(k ! i, k ! j) \<in> (dep_edges deps)\<^sup>*"
  proof (induction rule: rtrancl_induct)
    case base
    show ?case by simp
  next
    case (step y z)
    from step.hyps(2) matrix_edge_iff [OF kd dk mat, of y z]
    have "(k ! y, k ! z) \<in> dep_edges deps" by blast
    with step.IH show ?case by (rule rtrancl_into_rtrancl)
  qed
  with j(1) show "w \<in> descendants deps (k ! i)"
    by (simp add: descendants_def)
next
  fix w assume "w \<in> descendants deps (k ! i)"
  then have "(k ! i, w) \<in> (dep_edges deps)\<^sup>*"
    by (simp add: descendants_def)
  then have "\<exists>j<length k. w = k ! j \<and> (i, j) \<in> (set mat)\<^sup>*"
  proof (induction rule: rtrancl_induct)
    case base
    with i show ?case by auto
  next
    case (step y z)
    then obtain j where j: "j < length k" "y = k ! j" "(i, j) \<in> (set mat)\<^sup>*"
      by auto
    from step.hyps(2) have "z \<in> fst ` set deps"
      by (auto simp: dep_edges_def intro: rev_image_eqI)
    with kd have "z \<in> set k" by simp
    then obtain l where l: "l < length k" "z = k ! l"
      by (auto simp: set_conv_nth)
    from step.hyps(2) j l matrix_edge_iff [OF kd dk mat, of j l]
    have "(j, l) \<in> set mat" by blast
    with j(3) have "(i, l) \<in> (set mat)\<^sup>*" by (rule rtrancl_into_rtrancl)
    with l show ?case by auto
  qed
  then show "w \<in> {k ! j | j. j < length k \<and> (i, j) \<in> (set mat)\<^sup>*}"
    by auto
qed

lemma reach_row_descendants:
  assumes kd: "k = map fst deps" and dk: "distinct k"
    and mat: "matrix_entries (index_of k) deps = Inr mat"
    and i: "i < length k"
  shows "reach_row k (shortest_path mat) i = descendants deps (k ! i)"
proof -
  have "reach_row k (shortest_path mat) i
          = {k ! j | j. j < length k \<and> (i, j) \<in> (set mat)\<^sup>*}"
    using i by (rule reach_row_eq)
  also have "\<dots> = descendants deps (k ! i)"
    using kd dk mat i by (rule matrix_paths)
  finally show ?thesis .
qed


lemma reach_loop_descendants:
  assumes kd: "k = map fst deps" and dk: "distinct k"
    and mat: "matrix_entries (index_of k) deps = Inr mat"
    and loop: "reach_loop mods vis k (shortest_path mat) [0..<length k] [] {} = Inr (reach, rnv)"
  shows "map_of reach u = (if u \<in> set k then Some (descendants deps u) else None)"
    and "rnv = \<Union> {descendants deps v | v. v \<in> set k \<and> vis \<inter> descendants deps v = {}}"
proof -
  let ?row = "reach_row k (shortest_path mat)"
  have row: "\<And>i. i < length k \<Longrightarrow> ?row i = descendants deps (k ! i)"
    using kd dk mat by (rule reach_row_descendants)
  have self: "\<forall>i\<in>set [0..<length k]. k ! i \<in> ?row i"
    by (simp add: reach_row_def)
  from reach_loop_result [OF loop self]
  have reach: "reach = fold (\<lambda>i. AList.update (k ! i) (?row i)) [0..<length k] []"
    and rnv: "rnv = \<Union> {?row i | i. i \<in> set [0..<length k] \<and> vis \<inter> ?row i = {}}"
    by auto
  have inj: "inj_on ((!) k) (set [0..<length k])"
    using dk by (intro inj_on_nth) simp_all
  show "map_of reach u = (if u \<in> set k then Some (descendants deps u) else None)"
  proof (cases "u \<in> set k")
    case True
    then obtain i where i: "i < length k" "u = k ! i" by (auto simp: set_conv_nth)
    have "map_of reach (k ! i) = Some (?row i)"
      unfolding reach using inj i(1) by (intro map_of_fold_update) auto
    with i row [OF i(1)] True show ?thesis by simp
  next
    case False
    then have "u \<notin> (!) k ` set [0..<length k]" by (auto simp: set_conv_nth)
    then have "map_of reach u = None"
      unfolding reach by (simp add: map_of_fold_update_other)
    with False show ?thesis by simp
  qed
  have "{?row i | i. i \<in> set [0..<length k] \<and> vis \<inter> ?row i = {}}
          = {descendants deps v | v. v \<in> set k \<and> vis \<inter> descendants deps v = {}}"
  proof (intro equalityI subsetI)
    fix X assume "X \<in> {?row i | i. i \<in> set [0..<length k] \<and> vis \<inter> ?row i = {}}"
    then obtain i where i: "i < length k" "X = ?row i" "vis \<inter> ?row i = {}" by auto
    with row [OF i(1)] have "X = descendants deps (k ! i)" "k ! i \<in> set k"
      "vis \<inter> descendants deps (k ! i) = {}" by simp_all
    then show "X \<in> {descendants deps v | v. v \<in> set k \<and> vis \<inter> descendants deps v = {}}"
      by blast
  next
    fix X assume "X \<in> {descendants deps v | v. v \<in> set k \<and> vis \<inter> descendants deps v = {}}"
    then obtain v where v: "v \<in> set k" "X = descendants deps v" "vis \<inter> descendants deps v = {}"
      by auto
    from v(1) obtain i where i: "i < length k" "v = k ! i" by (auto simp: set_conv_nth)
    with v row [OF i(1)] have "X = ?row i" "vis \<inter> ?row i = {}" "i \<in> set [0..<length k]"
      by simp_all
    then show "X \<in> {?row i | i. i \<in> set [0..<length k] \<and> vis \<inter> ?row i = {}}"
      by blast
  qed
  with rnv show "rnv = \<Union> {descendants deps v | v. v \<in> set k \<and> vis \<inter> descendants deps v = {}}"
    by simp
qed

lemma descendants_self: "u \<in> descendants deps u"
  by (simp add: descendants_def)

lemma descendants_trans:
  "v \<in> descendants deps u \<Longrightarrow> w \<in> descendants deps v \<Longrightarrow> w \<in> descendants deps u"
  by (auto simp: descendants_def intro: rtrancl_trans)


text \<open>
  C3, as the code has it. For a dependency map (a dictionary: its keys are distinct):
  \<^verbatim>\<open>_compute_reachability\<close> returns when every producer is a key of the map and every
  key a module of the scheduler. Before the subtraction, the loop has given every key
  \<open>u\<close> the set of its descendants, \<open>u\<close> and every module that a path of the dependency
  map reaches from \<open>u\<close>: that map is reflexive and transitively closed, and
  \<^verbatim>\<open>reach_no_vis\<close> holds the descendants of the modules that reach no visualization.
  The map left in \<^verbatim>\<open>_reachability\<close> gives every key its descendants less
  \<^verbatim>\<open>reach_no_vis\<close>; it is transitively closed, and it is reflexive exactly at the
  modules whose set holds a visualization module: a module that reaches no visualization
  is subtracted from every set, its own included.
\<close>

theorem compute_reachability_closed:
  assumes dk: "distinct (map fst deps)"
  shows "((\<forall>(v, ps)\<in>set deps. set ps \<subseteq> fst ` set deps) \<and> fst ` set deps \<subseteq> fst ` set (modules s)
            \<longrightarrow> (\<exists>s'. compute_reachability s deps = Inr s'))
       \<and> (\<forall>mat reach rnv.
            matrix_entries (index_of (map fst deps)) deps = Inr mat
            \<and> reach_loop (modules s) (set (get_visualizations s)) (map fst deps) (shortest_path mat)
                  [0..<length (map fst deps)] [] {} = Inr (reach, rnv) \<longrightarrow>
            (\<forall>u\<in>fst ` set deps. map_of reach u = Some (descendants deps u) \<and> u \<in> descendants deps u)
            \<and> (\<forall>u v w Su Sv.
                  map_of reach u = Some Su \<and> v \<in> Su
                  \<and> map_of reach v = Some Sv \<and> w \<in> Sv \<longrightarrow> w \<in> Su)
            \<and> rnv = dead_to_vis s deps)
       \<and> (\<forall>s'. compute_reachability s deps = Inr s' \<longrightarrow>
            (\<forall>u\<in>fst ` set deps.
               map_of (reachability s') u = Some (descendants deps u - dead_to_vis s deps))
            \<and> (\<forall>u. u \<notin> fst ` set deps \<longrightarrow> map_of (reachability s') u = None)
            \<and> (\<forall>u v w Su Sv.
                  map_of (reachability s') u = Some Su \<and> v \<in> Su
                  \<and> map_of (reachability s') v = Some Sv \<and> w \<in> Sv \<longrightarrow> w \<in> Su)
            \<and> (\<forall>u Su. map_of (reachability s') u = Some Su \<longrightarrow>
                  (u \<in> Su \<longleftrightarrow> Su \<inter> set (get_visualizations s) \<noteq> {})))"
proof -
  let ?k = "map fst deps"
  let ?vis = "set (get_visualizations s)"
  have returns: "(\<forall>(v, ps)\<in>set deps. set ps \<subseteq> fst ` set deps) \<and> fst ` set deps \<subseteq> fst ` set (modules s)
            \<longrightarrow> (\<exists>s'. compute_reachability s deps = Inr s')"
  proof
    assume a: "(\<forall>(v, ps)\<in>set deps. set ps \<subseteq> fst ` set deps) \<and> fst ` set deps \<subseteq> fst ` set (modules s)"
    have "fst ` set deps \<subseteq> set ?k" by simp
    moreover from a have "\<forall>(v, ps)\<in>set deps. set ps \<subseteq> set ?k" by simp
    ultimately obtain mat where mat: "matrix_entries (index_of ?k) deps = Inr mat"
      using matrix_entries_succeeds [of deps ?k] by blast
    have "\<forall>i\<in>set [0..<length ?k]. map_of (modules s) (?k ! i) \<noteq> None"
    proof
      fix i assume "i \<in> set [0..<length ?k]"
      then have "?k ! i \<in> set ?k" by (intro nth_mem) simp
      with a have "?k ! i \<in> fst ` set (modules s)" by auto
      then show "map_of (modules s) (?k ! i) \<noteq> None" by (simp add: map_of_eq_None_iff)
    qed
    from reach_loop_succeeds [OF this]
    obtain r where "reach_loop (modules s) ?vis ?k (shortest_path mat) [0..<length ?k] [] {} = Inr r"
      by blast
    with mat show "\<exists>s'. compute_reachability s deps = Inr s'"
      by (cases r) (simp add: compute_reachability_def)
  qed
  have before: "\<forall>mat reach rnv.
            matrix_entries (index_of (map fst deps)) deps = Inr mat
            \<and> reach_loop (modules s) (set (get_visualizations s)) (map fst deps) (shortest_path mat)
                  [0..<length (map fst deps)] [] {} = Inr (reach, rnv) \<longrightarrow>
            (\<forall>u\<in>fst ` set deps. map_of reach u = Some (descendants deps u) \<and> u \<in> descendants deps u)
            \<and> (\<forall>u v w Su Sv.
                  map_of reach u = Some Su \<and> v \<in> Su
                  \<and> map_of reach v = Some Sv \<and> w \<in> Sv \<longrightarrow> w \<in> Su)
            \<and> rnv = dead_to_vis s deps"
  proof (intro allI impI)
    fix mat reach rnv
    assume h: "matrix_entries (index_of (map fst deps)) deps = Inr mat
            \<and> reach_loop (modules s) (set (get_visualizations s)) (map fst deps) (shortest_path mat)
                  [0..<length (map fst deps)] [] {} = Inr (reach, rnv)"
    then have mat: "matrix_entries (index_of ?k) deps = Inr mat"
      and loop: "reach_loop (modules s) ?vis ?k (shortest_path mat) [0..<length ?k] [] {} = Inr (reach, rnv)"
      by simp_all
    note d = reach_loop_descendants [OF refl dk mat loop]
    have r: "\<forall>u\<in>fst ` set deps. map_of reach u = Some (descendants deps u) \<and> u \<in> descendants deps u"
      using d(1) by (simp add: descendants_self)
    have n: "rnv = dead_to_vis s deps"
      using d(2) by (simp add: dead_to_vis_def)
    have trans: "\<forall>u v w Su Sv.
                  map_of reach u = Some Su \<and> v \<in> Su
                  \<and> map_of reach v = Some Sv \<and> w \<in> Sv \<longrightarrow> w \<in> Su"
    proof (intro allI impI)
      fix u v w Su Sv
      assume h: "map_of reach u = Some Su \<and> v \<in> Su \<and> map_of reach v = Some Sv \<and> w \<in> Sv"
      from h d(1) [of u] have Su: "Su = descendants deps u" by (simp split: if_splits)
      from h d(1) [of v] have Sv: "Sv = descendants deps v" by (simp split: if_splits)
      from h Su Sv have "v \<in> descendants deps u" "w \<in> descendants deps v" by simp_all
      then have "w \<in> descendants deps u" by (rule descendants_trans)
      with Su show "w \<in> Su" by simp
    qed
    show "(\<forall>u\<in>fst ` set deps. map_of reach u = Some (descendants deps u) \<and> u \<in> descendants deps u)
            \<and> (\<forall>u v w Su Sv.
                  map_of reach u = Some Su \<and> v \<in> Su
                  \<and> map_of reach v = Some Sv \<and> w \<in> Sv \<longrightarrow> w \<in> Su)
            \<and> rnv = dead_to_vis s deps"
      by (rule conjI [OF r conjI [OF trans n]])
  qed
  have after: "\<forall>s'. compute_reachability s deps = Inr s' \<longrightarrow>
            (\<forall>u\<in>fst ` set deps.
               map_of (reachability s') u = Some (descendants deps u - dead_to_vis s deps))
            \<and> (\<forall>u. u \<notin> fst ` set deps \<longrightarrow> map_of (reachability s') u = None)
            \<and> (\<forall>u v w Su Sv.
                  map_of (reachability s') u = Some Su \<and> v \<in> Su
                  \<and> map_of (reachability s') v = Some Sv \<and> w \<in> Sv \<longrightarrow> w \<in> Su)
            \<and> (\<forall>u Su. map_of (reachability s') u = Some Su \<longrightarrow>
                  (u \<in> Su \<longleftrightarrow> Su \<inter> set (get_visualizations s) \<noteq> {}))"
  proof (intro allI impI)
    fix s' assume ok: "compute_reachability s deps = Inr s'"
    from ok obtain mat reach rnv where
      mat: "matrix_entries (index_of ?k) deps = Inr mat"
      and loop: "reach_loop (modules s) ?vis ?k (shortest_path mat) [0..<length ?k] [] {} = Inr (reach, rnv)"
      and s': "reachability s' = map (\<lambda>(k, v). (k, v - rnv)) reach"
      by (auto simp: compute_reachability_def Let_def split: sum.splits prod.splits)
    note d = reach_loop_descendants [OF refl dk mat loop]
    have final: "\<And>u. map_of (reachability s') u = map_option (\<lambda>v. v - rnv) (map_of reach u)"
      unfolding s' by (simp add: map_of_map)
    have rnv: "rnv = dead_to_vis s deps"
      using d(2) by (simp add: dead_to_vis_def)
    have c1: "\<forall>u\<in>fst ` set deps.
          map_of (reachability s') u = Some (descendants deps u - dead_to_vis s deps)"
      using final d(1) rnv by simp
    have c2: "\<forall>u. u \<notin> fst ` set deps \<longrightarrow> map_of (reachability s') u = None"
      using final d(1) by simp
    from compute_reachability_entries [OF dk ok] obtain mat' where
      ent: "\<And>u Su. map_of (reachability s') u = Some Su \<longleftrightarrow>
           (\<exists>i<length deps. u = ?k ! i \<and>
              Su = reach_row ?k (shortest_path mat') i
                 - \<Union> {reach_row ?k (shortest_path mat') i | i.
                        i < length deps \<and> ?vis \<inter> reach_row ?k (shortest_path mat') i = {}})"
      by blast
    let ?S0 = "reach_row ?k (shortest_path mat')"
    let ?D = "\<Union> {?S0 i | i. i < length ?k \<and> ?vis \<inter> ?S0 i = {}}"
    have S0: "\<And>i. i < length ?k \<Longrightarrow> ?S0 i = {?k ! j | j. j < length ?k \<and> (i, j) \<in> (set mat')\<^sup>*}"
      by (rule reach_row_eq)
    have D: "?D = \<Union> {?S0 i | i. i < length ?k \<and> ?vis \<inter> ?S0 i = {}}" ..
    have ent': "\<And>u Su. map_of (reachability s') u = Some Su \<longleftrightarrow>
           (\<exists>i<length ?k. u = ?k ! i \<and> Su = ?S0 i - ?D)"
      using ent by simp
    have c3: "\<forall>u v w Su Sv.
                  map_of (reachability s') u = Some Su \<and> v \<in> Su
                  \<and> map_of (reachability s') v = Some Sv \<and> w \<in> Sv \<longrightarrow> w \<in> Su"
    proof (intro allI impI)
      fix u v w Su Sv
      assume h: "map_of (reachability s') u = Some Su \<and> v \<in> Su
                  \<and> map_of (reachability s') v = Some Sv \<and> w \<in> Sv"
      from h ent' [of u Su] obtain i where i: "i < length ?k" "u = ?k ! i" "Su = ?S0 i - ?D"
        by blast
      from h ent' [of v Sv] obtain j where j: "j < length ?k" "v = ?k ! j" "Sv = ?S0 j - ?D"
        by blast
      from h i j have v: "?k ! j \<in> ?S0 i - ?D" and w: "w \<in> ?S0 j - ?D" by simp_all
      from descendants_closed [of ?k ?S0 "set mat'" ?D ?vis i j w, OF dk S0 D i(1) j(1) v w] i
      show "w \<in> Su" by simp
    qed
    have c4: "\<forall>u Su. map_of (reachability s') u = Some Su \<longrightarrow>
                  (u \<in> Su \<longleftrightarrow> Su \<inter> set (get_visualizations s) \<noteq> {})"
    proof (intro allI impI)
      fix u Su
      assume h: "map_of (reachability s') u = Some Su"
      from h ent' [of u Su] obtain i where i: "i < length ?k" "u = ?k ! i" "Su = ?S0 i - ?D"
        by blast
      from descendants_reflexive [of ?k ?S0 "set mat'" ?D ?vis i, OF dk S0 D i(1)] i
      show "(u \<in> Su) = (Su \<inter> ?vis \<noteq> {})" by simp
    qed
    show "(\<forall>u\<in>fst ` set deps.
               map_of (reachability s') u = Some (descendants deps u - dead_to_vis s deps))
            \<and> (\<forall>u. u \<notin> fst ` set deps \<longrightarrow> map_of (reachability s') u = None)
            \<and> (\<forall>u v w Su Sv.
                  map_of (reachability s') u = Some Su \<and> v \<in> Su
                  \<and> map_of (reachability s') v = Some Sv \<and> w \<in> Sv \<longrightarrow> w \<in> Su)
            \<and> (\<forall>u Su. map_of (reachability s') u = Some Su \<longrightarrow>
                  (u \<in> Su \<longleftrightarrow> Su \<inter> set (get_visualizations s) \<noteq> {}))"
      by (rule conjI [OF c1 conjI [OF c2 conjI [OF c3 c4]]])
  qed
  show ?thesis
    by (rule conjI [OF returns conjI [OF before after]])
qed


lemma compute_reachability_avt:
  "compute_reachability sched_avt deps_avt =
     Inr (sched_avt\<lparr>reachability := [(''a'', {''a'', ''v''}), (''v'', {''v''}), (''t'', {})]\<rparr>)"
  by code_simp

lemma matrix_entries_avt:
  "matrix_entries (index_of (map fst deps_avt)) deps_avt = Inr [(0, 1), (1, 2)]"
  by code_simp

lemma reach_loop_avt:
  "reach_loop (modules sched_avt) (set (get_visualizations sched_avt)) (map fst deps_avt)
      (shortest_path [(0, 1), (1, 2)]) [0..<length (map fst deps_avt)] [] {}
   = Inr ([(''a'', {''a'', ''v'', ''t''}), (''v'', {''v'', ''t''}), (''t'', {''t''})], {''t''})"
  by code_simp

theorem compute_reachability_closed_witness:
  "distinct (map fst deps_avt)
   \<and> compute_reachability sched_avt deps_avt =
       Inr (sched_avt\<lparr>reachability := [(''a'', {''a'', ''v''}), (''v'', {''v''}), (''t'', {})]\<rparr>)
   \<and> descendants deps_avt ''a'' = {''a'', ''v'', ''t''}
   \<and> descendants deps_avt ''t'' = {''t''}
   \<and> dead_to_vis sched_avt deps_avt = {''t''}
   \<and> descendants deps_avt ''a'' - dead_to_vis sched_avt deps_avt = {''a'', ''v''}
   \<and> {''v''} \<inter> set (get_visualizations sched_avt) \<noteq> {}"
proof -
  let ?s' = "sched_avt\<lparr>reachability := [(''a'', {''a'', ''v''}), (''v'', {''v''}), (''t'', {})]\<rparr>"
  let ?reach = "[(''a'', {''a'', ''v'', ''t''}), (''v'', {''v'', ''t''}), (''t'', {''t''})]"
  have d: "distinct (map fst deps_avt)" by (simp add: deps_avt_def)
  have e: "compute_reachability sched_avt deps_avt = Inr ?s'"
    by (rule compute_reachability_avt)
  have a: "''a'' \<in> fst ` set deps_avt" and t: "''t'' \<in> fst ` set deps_avt"
    by (simp_all add: deps_avt_def)
  have m: "map_of (reachability ?s') ''v'' = Some {''v''}" by simp
  note th = compute_reachability_closed [OF d, where s = sched_avt]
  note before = th [THEN conjunct2, THEN conjunct1, THEN spec, THEN spec, THEN spec, THEN mp,
      OF conjI [OF matrix_entries_avt reach_loop_avt]]
  note after = th [THEN conjunct2, THEN conjunct2, THEN spec, THEN mp, OF e]
  from before [THEN conjunct1, THEN bspec, OF a]
  have da: "descendants deps_avt ''a'' = {''a'', ''v'', ''t''}" by simp
  from before [THEN conjunct1, THEN bspec, OF t]
  have dt: "descendants deps_avt ''t'' = {''t''}" by simp
  from before [THEN conjunct2, THEN conjunct2]
  have dead: "dead_to_vis sched_avt deps_avt = {''t''}" by simp
  from after [THEN conjunct1, THEN bspec, OF a]
  have fa: "descendants deps_avt ''a'' - dead_to_vis sched_avt deps_avt = {''a'', ''v''}" by simp
  from after [THEN conjunct2, THEN conjunct2, THEN conjunct2, THEN spec, THEN spec, THEN mp, OF m]
  have "{''v''} \<inter> set (get_visualizations sched_avt) \<noteq> {}" by simp
  with d e da dt dead fa show ?thesis by (intro conjI)
qed

text \<open>
  C3, as stated, fails: \<open>t\<close> comes after the only visualization, so it is subtracted
  from every set and is not in its own.
\<close>

theorem compute_reachability_reflexive_counterexample:
  "compute_reachability sched_avt deps_avt =
     Inr (sched_avt\<lparr>reachability := [(''a'', {''a'', ''v''}), (''v'', {''v''}), (''t'', {})]\<rparr>)
   \<and> ''t'' \<notin> the (map_of (reachability (projr (compute_reachability sched_avt deps_avt))) ''t'')"
  by (simp add: compute_reachability_avt)


section \<open>Ordering the modules\<close>

lemma collect_dependencies_reset:
  "collect_dependencies (s\<lparr>new_modules_ids := ids, slots_updated := u, run_list := rl\<rparr>) r
     = collect_dependencies s r"
  by (simp add: collect_dependencies_def)

text \<open>
  The retry of \<^verbatim>\<open>BaseScheduler.order_modules\<close>: when the sort of all the
  dependencies raises \<^verbatim>\<open>ValueError\<close> the result is that of the attempt with the
  required inputs only, errors included; when the first attempt returns there is no
  second one.
\<close>

lemma order_modules_retry:
  assumes "collect_dependencies s False = Inr d_all" and "toposort d_all = Inl ValueError"
  shows "order_modules toposort s = order_attempt toposort s True"
  using assms by (simp add: order_modules_def order_attempt_def)

lemma order_modules_first:
  assumes "order_attempt toposort s False = Inr r"
  shows "order_modules toposort s = Inr r"
  using assms by (simp add: order_modules_def)

lemma order_modules_cycle:
  assumes "collect_dependencies s False = Inr d_all" and "toposort d_all = Inl ValueError"
    and "collect_dependencies s True = Inr d_req" and "toposort d_req = Inl ValueError"
  shows "order_modules toposort s = Inl (ValueError, s)"
  using assms by (simp add: order_modules_def order_attempt_def)

lemma order_modules_optional_cycle:
  "map_sum fst fst (order_modules toposort_model (sched_cycle False)) = Inr [''a'', ''y'', ''x'']"
  by code_simp

lemma df_order_modules_optional_cycle:
  "df_order_modules toposort_model df_cycle = Inl ValueError"
  by code_simp

text \<open>
  C6 at a cycle that the required inputs keep: \<^verbatim>\<open>order_modules\<close> sorts, retries
  with the required inputs and lets the \<^verbatim>\<open>ValueError\<close> of the retry through; but
  \<^verbatim>\<open>_update_modules\<close> has emptied the run list before the call and does not catch
  the error, so the scheduler is left with an empty run list and not with the previous
  one.
\<close>

theorem update_modules_cycle_empties_run_list:
  assumes "new_modules_ids s \<noteq> []"
    and "\<not> list_ex (\<lambda>mid. map_of (modules s) mid = None) (new_modules_ids s)"
    and "collect_dependencies s False = Inr d_all" and "toposort d_all = Inl ValueError"
    and "collect_dependencies s True = Inr d_req" and "toposort d_req = Inl ValueError"
  shows "update_modules toposort s =
           Inl (ValueError, s\<lparr>new_modules_ids := [], slots_updated := False, run_list := []\<rparr>)"
proof -
  let ?s = "s\<lparr>new_modules_ids := [], slots_updated := False, run_list := []\<rparr>"
  have a: "collect_dependencies ?s False = Inr d_all"
    using assms(3) by (simp only: collect_dependencies_reset)
  have r: "collect_dependencies ?s True = Inr d_req"
    using assms(5) by (simp only: collect_dependencies_reset)
  have "order_modules toposort ?s = Inl (ValueError, ?s)"
    using a assms(4) r assms(6) by (rule order_modules_cycle)
  with assms(1,2) show ?thesis
    by (simp add: update_modules_def)
qed

lemma sched_cycle_deps:
  "collect_dependencies (sched_cycle True) False = Inr [(''a'', []), (''x'', [''y'']), (''y'', [''x''])]"
  "collect_dependencies (sched_cycle True) True = Inr [(''a'', []), (''x'', [''y'']), (''y'', [''x''])]"
  by code_simp+

lemma toposort_model_cycle:
  "toposort_model [(''a'', []), (''x'', [''y'']), (''y'', [''x''])] = Inl ValueError"
  by code_simp

theorem update_modules_cycle_empties_run_list_witness:
  "run_list (sched_cycle True) = [''a'']
   \<and> new_modules_ids (sched_cycle True) = [''x'', ''y'']
   \<and> update_modules toposort_model (sched_cycle True) =
       Inl (ValueError,
            (sched_cycle True)\<lparr>new_modules_ids := [], slots_updated := False, run_list := []\<rparr>)"
proof -
  have n: "new_modules_ids (sched_cycle True) \<noteq> []"
    by (simp add: sched_cycle_def)
  have m: "\<not> list_ex (\<lambda>mid. map_of (modules (sched_cycle True)) mid = None)
             (new_modules_ids (sched_cycle True))"
    by (simp add: sched_cycle_def)
  have u: "update_modules toposort_model (sched_cycle True) =
       Inl (ValueError,
            (sched_cycle True)\<lparr>new_modules_ids := [], slots_updated := False, run_list := []\<rparr>)"
    using n m sched_cycle_deps(1) toposort_model_cycle sched_cycle_deps(2) toposort_model_cycle
    by (rule update_modules_cycle_empties_run_list
          [where toposort = toposort_model and s = "sched_cycle True"])
  have "run_list (sched_cycle True) = [''a'']"
    and "new_modules_ids (sched_cycle True) = [''x'', ''y'']"
    by (simp_all add: sched_cycle_def)
  with u show ?thesis by (intro conjI)
qed


end
